theory Spec2Isabelle
  imports Main "HOL-Library.Monad_Syntax"
begin

unbundle bit_operations_syntax

section \<open>The native scalar field of the constraint backend\<close>

text \<open>
  The program is written against the o1js library. A \<open>Field\<close> is an element of the
  backend's prime field, kept as its canonical representative in \<open>[0, Field_ORDER)\<close>;
  every arithmetic gate reduces modulo \<open>Field_ORDER\<close>, and the comparison gadgets
  compare canonical representatives. A \<open>Bool\<close> is a HOL \<open>bool\<close>. A thrown
  \<open>Error\<close> and an assertion that fails while proving are both the value \<open>None\<close>.
\<close>

type_synonym Field = int

definition Field_ORDER :: int where
  "Field_ORDER = 28948022309329048855892746252171976963363056481941560715954676764349967630337"

definition Field_from :: "int \<Rightarrow> Field" where
  "Field_from x = x mod Field_ORDER"

definition Field_add :: "Field \<Rightarrow> Field \<Rightarrow> Field" where
  "Field_add a b = (a + b) mod Field_ORDER"

definition Field_sub :: "Field \<Rightarrow> Field \<Rightarrow> Field" where
  "Field_sub a b = (a - b) mod Field_ORDER"

definition Field_mul :: "Field \<Rightarrow> Field \<Rightarrow> Field" where
  "Field_mul a b = (a * b) mod Field_ORDER"

text \<open>
  Field division multiplies by the inverse, which the backend finds with the extended
  Euclidean algorithm; dividing by a value without an inverse throws.
\<close>

function Field_egcd :: "int \<Rightarrow> int \<Rightarrow> int \<times> int \<times> int" where
  "Field_egcd a b =
     (if b \<le> 0 then (a, 1, 0)
      else (case Field_egcd b (a mod b) of (g, s, t) \<Rightarrow> (g, t, s - (a div b) * t)))"
  by pat_completeness auto
termination
  by (relation "measure (\<lambda>(a, b). nat b)") simp_all

definition Field_inv :: "Field \<Rightarrow> Field option" where
  "Field_inv a =
     (case Field_egcd Field_ORDER a of (g, s, t) \<Rightarrow>
        if g = 1 then Some (t mod Field_ORDER) else None)"

definition Field_div :: "Field \<Rightarrow> Field \<Rightarrow> Field option" where
  "Field_div a b = (case Field_inv b of None \<Rightarrow> None | Some i \<Rightarrow> Some (Field_mul a i))"

definition Field_equals :: "Field \<Rightarrow> Field \<Rightarrow> bool" where
  "Field_equals a b = (a = b)"

definition Field_lessThan :: "Field \<Rightarrow> Field \<Rightarrow> bool" where
  "Field_lessThan a b = (a < b)"

definition Field_greaterThan :: "Field \<Rightarrow> Field \<Rightarrow> bool" where
  "Field_greaterThan a b = (a > b)"

definition Bool_toField :: "bool \<Rightarrow> Field" where
  "Bool_toField b = (if b then 1 else 0)"

definition assertTrue :: "bool \<Rightarrow> unit option" where
  "assertTrue b = (if b then Some () else None)"

definition assertFalse :: "bool \<Rightarrow> unit option" where
  "assertFalse b = (if b then None else Some ())"

definition Provable_if :: "bool \<Rightarrow> 'a \<Rightarrow> 'a \<Rightarrow> 'a" where
  "Provable_if c x y = (if c then x else y)"

text \<open>
  \<open>Provable.switch\<close> adds up the values weighted by their mask bits; while proving it
  throws when more than one mask bit is set.
\<close>

definition Provable_switch :: "bool list \<Rightarrow> Field list \<Rightarrow> Field option" where
  "Provable_switch msk values =
     (if length (filter (\<lambda>b. b) msk) > 1 then None
      else Some (fold (\<lambda>(m, v) acc. Field_add acc (Field_mul v (Bool_toField m)))
                   (zip msk values) 0))"

text \<open>A \<open>for\<close> loop over the given indices whose body may fail an assertion.\<close>

fun forM :: "nat list \<Rightarrow> (nat \<Rightarrow> 's \<Rightarrow> 's option) \<Rightarrow> 's \<Rightarrow> 's option" where
  "forM [] body s = Some s"
| "forM (i # is) body s = (case body i s of None \<Rightarrow> None | Some s' \<Rightarrow> forM is body s')"

text \<open>
  Modelled from the spec: the primitive 64-bit range check of the external backend
  (\<open>Gadgets.rangeCheck64\<close>, sections 4.1 and 6). It is satisfiable exactly for
  \<open>0 \<le> x < 2^64\<close> and hands back the four highest 12-bit limbs of \<open>x\<close>, the top one
  (bits 52 to 63) first.
\<close>

definition rangeCheck64 :: "Field \<Rightarrow> Field list option" where
  "rangeCheck64 x =
     (if 0 \<le> x \<and> x < 2 ^ 64
      then Some [drop_bit 52 x AND mask 12, drop_bit 40 x AND mask 12,
                 drop_bit 28 x AND mask 12, drop_bit 16 x AND mask 12]
      else None)"

section \<open>bigint.ts\<close>

datatype Ordering = Less | Equal | Greater

fun Ordering_val :: "Ordering \<Rightarrow> Field" where
  "Ordering_val Less = 0"
| "Ordering_val Equal = 1"
| "Ordering_val Greater = 2"

definition LIMB_NUM :: nat where
  "LIMB_NUM = 18"

definition LIMB_BITS :: nat where
  "LIMB_BITS = 116"

definition MODULUS :: int where
  "MODULUS = push_bit LIMB_BITS 1"

definition MASK :: int where
  "MASK = MODULUS - 1"

definition Limbs_empty :: "Field list" where
  "Limbs_empty = replicate LIMB_NUM 0"

record Bigint2048 =
  negative :: bool
  fields' :: "Field list"

subsection \<open>Construction and reading back\<close>

fun from_limbs :: "nat \<Rightarrow> int \<Rightarrow> Field list \<Rightarrow> Field list \<times> int" where
  "from_limbs 0 x fs = (fs, x)"
| "from_limbs (Suc n) x fs =
     from_limbs n (drop_bit LIMB_BITS x) (fs @ [Field_from (x AND MASK)])"

definition Bigint2048_from :: "int \<Rightarrow> Bigint2048 option" where
  "Bigint2048_from x0 =
     (let neg0 = x0 < 0;
          x = (if neg0 then - x0 else x0);
          (fs, x') = from_limbs LIMB_NUM x []
      in if x' \<noteq> 0 then None else Some \<lparr>negative = neg0, fields' = fs\<rparr>)"

definition Bigint2048_MAX :: Bigint2048 where
  "Bigint2048_MAX = the (Bigint2048_from (push_bit (LIMB_BITS * LIMB_NUM) 1 - 1))"

definition Bigint2048_ZERO :: Bigint2048 where
  "Bigint2048_ZERO = the (Bigint2048_from 0)"

definition Bigint2048_ONE :: Bigint2048 where
  "Bigint2048_ONE = the (Bigint2048_from 1)"

definition toBigInt :: "Bigint2048 \<Rightarrow> int" where
  "toBigInt this =
     (let v = fold (\<lambda>i v. push_bit LIMB_BITS v + fields' this ! i) (rev [0..<LIMB_NUM]) 0
      in if negative this then - v else v)"

subsection \<open>Range checks\<close>

text \<open>
  The constraints of \<open>rangeCheck116\<close> on \<open>x\<close> with the witnesses \<open>x0\<close>, \<open>x1\<close>, and the
  function itself, which supplies the witnesses it computes from \<open>x\<close>.
\<close>

definition rangeCheck116_constraints :: "Field \<Rightarrow> Field \<Rightarrow> Field \<Rightarrow> bool" where
  "rangeCheck116_constraints x x0 x1 =
     (case rangeCheck64 x0 of None \<Rightarrow> False
      | Some _ \<Rightarrow>
         (case rangeCheck64 x1 of None \<Rightarrow> False
          | Some hi \<Rightarrow>
              Field_equals (hd hi) 0
              \<and> Field_equals (Field_add x0 (Field_mul x1 (push_bit 64 1))) x))"

definition rangeCheck116 :: "Field \<Rightarrow> unit option" where
  "rangeCheck116 x =
     (let x0 = Field_from (x AND (push_bit 64 1 - 1));
          x1 = Field_from (drop_bit 64 x)
      in assertTrue (rangeCheck116_constraints x x0 x1))"

definition rangeCheck128Signed :: "Field \<Rightarrow> unit option" where
  "rangeCheck128Signed xSigned =
     (let x = Field_add xSigned (push_bit 127 1);
          x0 = Field_from (x AND (push_bit 64 1 - 1));
          x1 = Field_from (drop_bit 64 x)
      in do {
        _ \<leftarrow> rangeCheck64 x0;
        _ \<leftarrow> rangeCheck64 x1;
        assertTrue (Field_equals (Field_add x0 (Field_mul x1 (push_bit 64 1))) x)
      })"

definition check :: "Bigint2048 \<Rightarrow> unit option" where
  "check x = do {
     _ \<leftarrow> forM [0..<LIMB_NUM] (\<lambda>i _. rangeCheck116 (fields' x ! i)) ();
     Some ()
   }"

subsection \<open>Sign, comparison and equality\<close>

definition abs_big :: "Bigint2048 \<Rightarrow> Bigint2048" where
  "abs_big this = \<lparr>negative = False, fields' = fields' this\<rparr>"

definition neg :: "Bigint2048 \<Rightarrow> Bigint2048" where
  "neg this = \<lparr>negative = \<not> negative this, fields' = fields' this\<rparr>"

definition isZero :: "Bigint2048 \<Rightarrow> bool" where
  "isZero this =
     fold (\<lambda>i state. state \<and> Field_equals (fields' this ! i) 0) [0..<LIMB_NUM] True"

definition cmp_limb :: "Bigint2048 \<Rightarrow> Bigint2048 \<Rightarrow> nat \<Rightarrow> Field \<Rightarrow> Field option" where
  "cmp_limb this other i state = do {
     inner \<leftarrow> Provable_switch
       [Field_greaterThan (fields' other ! i) (fields' this ! i),
        Field_equals (fields' other ! i) (fields' this ! i),
        Field_lessThan (fields' other ! i) (fields' this ! i)]
       [Ordering_val Less, Ordering_val Equal, Ordering_val Greater];
     Provable_switch
       [Field_equals state (Ordering_val Less),
        Field_equals state (Ordering_val Equal),
        Field_equals state (Ordering_val Greater)]
       [Ordering_val Less, inner, Ordering_val Greater]
   }"

definition cmp :: "Bigint2048 \<Rightarrow> Bigint2048 \<Rightarrow> Field option" where
  "cmp this other = do {
     state \<leftarrow> forM (rev [0..<LIMB_NUM]) (cmp_limb this other) (Ordering_val Equal);
     let thisNegative = (negative this \<and> \<not> isZero this);
     let otherNegative = (negative other \<and> \<not> isZero other);
     flipped \<leftarrow> Provable_switch
       [Field_equals state (Ordering_val Less),
        Field_equals state (Ordering_val Equal),
        Field_equals state (Ordering_val Greater)]
       [Ordering_val Greater, Ordering_val Equal, Ordering_val Less];
     Provable_switch
       [thisNegative \<and> \<not> otherNegative,
        \<not> thisNegative \<and> otherNegative,
        \<not> thisNegative \<and> \<not> otherNegative,
        thisNegative \<and> otherNegative]
       [Ordering_val Less, Ordering_val Greater, state, flipped]
   }"

definition equals :: "Bigint2048 \<Rightarrow> Bigint2048 \<Rightarrow> bool" where
  "equals this other =
     (let (bothAreZero, allEqual) =
        fold (\<lambda>i (bothAreZero, allEqual).
                (let allEqual = (allEqual \<and> Field_equals (fields' this ! i) (fields' other ! i));
                     bothAreZero = (bothAreZero \<and> Field_equals (fields' this ! i) 0);
                     bothAreZero = (bothAreZero \<and> Field_equals (fields' other ! i) 0)
                 in (bothAreZero, allEqual)))
          [0..<LIMB_NUM] (True, negative this = negative other)
      in bothAreZero \<or> allEqual)"

definition lessThan :: "Bigint2048 \<Rightarrow> Bigint2048 \<Rightarrow> bool option" where
  "lessThan this other = do {
     c \<leftarrow> cmp this other;
     Some (Field_equals c (Ordering_val Less))
   }"

definition assertEquals :: "Bigint2048 \<Rightarrow> Bigint2048 \<Rightarrow> unit option" where
  "assertEquals this other = assertTrue (equals this other)"

definition assertNotEquals :: "Bigint2048 \<Rightarrow> Bigint2048 \<Rightarrow> unit option" where
  "assertNotEquals this other = assertFalse (equals this other)"

definition assertLessThan :: "Bigint2048 \<Rightarrow> Bigint2048 \<Rightarrow> unit option" where
  "assertLessThan this other = do {
     c \<leftarrow> cmp this other;
     assertTrue (Field_equals c (Ordering_val Less))
   }"

subsection \<open>Addition and subtraction\<close>

definition add_limb ::
  "Field list \<Rightarrow> Field list \<Rightarrow> nat \<Rightarrow> Field list \<times> bool \<Rightarrow> Field list \<times> bool" where
  "add_limb xs ys i = (\<lambda>(addFields, carry).
     (let s = Field_add (Field_add (xs ! i) (ys ! i)) (Bool_toField carry);
          carry' = Field_greaterThan s MASK
      in (addFields[i := Provable_if carry' (Field_sub s MODULUS) s], carry')))"

definition sub_limb ::
  "Field list \<Rightarrow> Field list \<Rightarrow> nat \<Rightarrow> Field list \<times> bool \<Rightarrow> Field list \<times> bool" where
  "sub_limb xs ys i = (\<lambda>(subFields, carry).
     (let s = Field_sub (Field_sub (xs ! i) (ys ! i)) (Bool_toField carry);
          carry' = Field_greaterThan s MASK
      in (subFields[i := Provable_if carry' (Field_add s MODULUS) s], carry')))"

definition add :: "Bigint2048 \<Rightarrow> Bigint2048 \<Rightarrow> Bigint2048 option" where
  "add this rhs = do {
     let isSub = (\<not> (negative this = negative rhs));
     thisSmall \<leftarrow> lessThan (abs_big this) (abs_big rhs);
     let resultNegative = Provable_if isSub (negative rhs = thisSmall) (negative this);
     let (addFields, carry) =
           fold (add_limb (fields' this) (fields' rhs)) [0..<LIMB_NUM] (Limbs_empty, False);
     _ \<leftarrow> assertFalse carry;
     let (bigger, smaller) = Provable_if thisSmall (rhs, this) (this, rhs);
     let (subFields, carry) =
           fold (sub_limb (fields' bigger) (fields' smaller)) [0..<LIMB_NUM] (Limbs_empty, False);
     _ \<leftarrow> assertFalse carry;
     Some \<lparr>negative = resultNegative, fields' = Provable_if isSub subFields addFields\<rparr>
   }"

definition sub :: "Bigint2048 \<Rightarrow> Bigint2048 \<Rightarrow> Bigint2048 option" where
  "sub this y = add this (neg y)"

subsection \<open>Witnessed modular multiplication\<close>

text \<open>
  Native \<open>bigint\<close> division and remainder truncate towards zero and throw on a zero
  divisor; the callers below test the divisor first.
\<close>

definition bigint_div :: "int \<Rightarrow> int \<Rightarrow> int" where
  "bigint_div a b = sgn a * sgn b * (\<bar>a\<bar> div \<bar>b\<bar>)"

definition bigint_rem :: "int \<Rightarrow> int \<Rightarrow> int" where
  "bigint_rem a b = sgn a * (\<bar>a\<bar> mod \<bar>b\<bar>)"

definition witness_pair :: "int \<times> int \<Rightarrow> (Bigint2048 \<times> Bigint2048) option" where
  "witness_pair qr = do {
     q \<leftarrow> Bigint2048_from (fst qr);
     r \<leftarrow> Bigint2048_from (snd qr);
     _ \<leftarrow> check q;
     _ \<leftarrow> check r;
     Some (q, r)
   }"

definition multiply_witness ::
  "Bigint2048 \<Rightarrow> Bigint2048 \<Rightarrow> Bigint2048 \<Rightarrow> (Bigint2048 \<times> Bigint2048) option" where
  "multiply_witness x y p =
     (let xy = toBigInt x * toBigInt y;
          p0 = toBigInt p
      in if p0 = 0 then None
         else (let q = bigint_div xy p0;
                   r = xy - q * p0
               in witness_pair (q, r)))"

definition multiply_delta ::
  "bool \<Rightarrow> Field list \<Rightarrow> Field list \<Rightarrow> Field list \<Rightarrow> Field list \<Rightarrow> Field list \<Rightarrow> Field list" where
  "multiply_delta isSquare X Y Q R P =
     fold (\<lambda>i delta.
        (let delta =
               (if isSquare
                then (let delta = fold (\<lambda>j delta.
                                     delta[i + j := Field_add (delta ! (i + j))
                                        (Field_mul (Field_mul (X ! i) (X ! j)) 2)])
                                   [0..<i] delta
                      in delta[2 * i := Field_add (delta ! (2 * i)) (Field_mul (X ! i) (X ! i))])
                else fold (\<lambda>j delta.
                        delta[i + j := Field_add (delta ! (i + j)) (Field_mul (X ! i) (Y ! j))])
                      [0..<LIMB_NUM] delta);
             delta = fold (\<lambda>j delta.
                        delta[i + j := Field_sub (delta ! (i + j)) (Field_mul (Q ! i) (P ! j))])
                      [0..<LIMB_NUM] delta
         in delta[i := Field_sub (delta ! i) (R ! i)]))
       [0..<LIMB_NUM] (replicate (2 * LIMB_NUM - 1) 0)"

definition multiply_carry :: "Field list \<Rightarrow> nat \<Rightarrow> Field \<Rightarrow> Field option" where
  "multiply_carry delta i carry =
     (let deltaPlusCarry = Field_add (delta ! i) carry
      in do {
        carry' \<leftarrow> Field_div deltaPlusCarry (push_bit LIMB_BITS 1);
        _ \<leftarrow> rangeCheck128Signed carry';
        _ \<leftarrow> assertTrue (Field_equals deltaPlusCarry (Field_mul carry' (push_bit LIMB_BITS 1)));
        Some carry'
      })"

text \<open>
  The constraints that \<open>multiply\<close> lays down on the limbs of \<open>x\<close>, \<open>y\<close>, \<open>p\<close> and of the
  witnessed \<open>q\<close>, \<open>r\<close> (the range checks of the witnesses apart).
\<close>

definition multiply_constraints ::
  "bool \<Rightarrow> Field list \<Rightarrow> Field list \<Rightarrow> Field list \<Rightarrow> Field list \<Rightarrow> Field list \<Rightarrow> unit option" where
  "multiply_constraints isSquare X Y Q R P =
     (let delta = multiply_delta isSquare X Y Q R P
      in do {
        carry \<leftarrow> forM [0..<2 * LIMB_NUM - 2] (multiply_carry delta) 0;
        assertTrue (Field_equals (Field_add (delta ! (2 * LIMB_NUM - 2)) carry) 0)
      })"

definition multiply ::
  "Bigint2048 \<Rightarrow> Bigint2048 \<Rightarrow> Bigint2048 \<Rightarrow> bool \<Rightarrow> Bigint2048 option" where
  "multiply x y0 p isSquare =
     (let y = (if isSquare then x else y0)
      in do {
        (q, r) \<leftarrow> multiply_witness x y p;
        _ \<leftarrow> multiply_constraints isSquare (fields' x) (fields' y) (fields' q) (fields' r) (fields' p);
        Some r
      })"

definition modMul :: "Bigint2048 \<Rightarrow> Bigint2048 \<Rightarrow> Bigint2048 \<Rightarrow> Bigint2048 option" where
  "modMul this x y = multiply x y this False"

definition mul :: "Bigint2048 \<Rightarrow> Bigint2048 \<Rightarrow> Bigint2048 option" where
  "mul this y = do {
     m \<leftarrow> modMul Bigint2048_MAX (abs_big this) (abs_big y);
     Some \<lparr>negative = (\<not> (negative this = negative y)), fields' = fields' m\<rparr>
   }"

subsection \<open>Floor division\<close>

record DivResult =
  quot :: Bigint2048
  rem :: Bigint2048

definition floorDiv_witness :: "Bigint2048 \<Rightarrow> Bigint2048 \<Rightarrow> (Bigint2048 \<times> Bigint2048) option" where
  "floorDiv_witness this y =
     (let lhs = toBigInt this;
          rhs = toBigInt y
      in if rhs = 0 then None
         else (let q = bigint_div lhs rhs;
                   r = bigint_rem lhs rhs
               in witness_pair
                    (if r \<noteq> 0 \<and> ((r < 0) \<noteq> (rhs < 0)) then (q - 1, r + rhs) else (q, r))))"

definition floorDiv :: "Bigint2048 \<Rightarrow> Bigint2048 \<Rightarrow> DivResult option" where
  "floorDiv this y = do {
     _ \<leftarrow> assertNotEquals y Bigint2048_ZERO;
     (q, r) \<leftarrow> floorDiv_witness this y;
     yq \<leftarrow> mul y q;
     s \<leftarrow> add yq r;
     _ \<leftarrow> assertEquals s this;
     _ \<leftarrow> assertLessThan (abs_big r) (abs_big y);
     _ \<leftarrow> assertTrue (equals r Bigint2048_ZERO \<or> (negative r = negative y));
     Some \<lparr>quot = q, rem = r\<rparr>
   }"

section \<open>gcd.ts\<close>

definition GCD_ITERATIONS_PER_PROOF :: nat where
  "GCD_ITERATIONS_PER_PROOF = 9"

record GcdPair =
  g_0 :: Bigint2048
  g_1 :: Bigint2048

definition isSolved :: "GcdPair \<Rightarrow> bool" where
  "isSolved this =
     (let subGcd = equals (g_0 this) (g_1 this);
          divGcd = equals (g_1 this) Bigint2048_ZERO
      in subGcd \<or> divGcd)"

definition assertSolved :: "GcdPair \<Rightarrow> Bigint2048 option" where
  "assertSolved this = do {
     _ \<leftarrow> assertTrue (isSolved this);
     Some (g_0 this)
   }"

text \<open>The divisor handed to the division gadget in one iteration of \<open>euclidGcd\<close>.\<close>

definition euclid_divisor :: "GcdPair \<Rightarrow> Bigint2048" where
  "euclid_divisor cur =
     Provable_if (equals (g_1 cur) Bigint2048_ZERO) Bigint2048_ONE (g_1 cur)"

definition euclid_iteration :: "nat \<Rightarrow> GcdPair \<Rightarrow> GcdPair option" where
  "euclid_iteration i cur =
     (let isZero = equals (g_1 cur) Bigint2048_ZERO;
          new_g_0 = Provable_if isZero (g_0 cur) (g_1 cur)
      in do {
        d \<leftarrow> floorDiv (g_0 cur) (euclid_divisor cur);
        Some \<lparr>g_0 = new_g_0, g_1 = Provable_if isZero (g_1 cur) (rem d)\<rparr>
      })"

definition euclidGcd :: "GcdPair \<Rightarrow> GcdPair option" where
  "euclidGcd this = forM [0..<GCD_ITERATIONS_PER_PROOF] euclid_iteration this"

subsection \<open>The recursive program and its driver\<close>

text \<open>
  An attestation carries its declared public input and output. \<open>verify\<close> belongs to the
  backend; the attestations here are the ones the two methods produce.
\<close>

record Proof =
  publicInput :: GcdPair
  publicOutput :: GcdPair

definition baseCase :: "GcdPair \<Rightarrow> Proof option" where
  "baseCase pubIn = do {
     out \<leftarrow> euclidGcd pubIn;
     Some \<lparr>publicInput = pubIn, publicOutput = out\<rparr>
   }"

definition step :: "GcdPair \<Rightarrow> Proof \<Rightarrow> Proof option" where
  "step pubIn earlierProof = do {
     _ \<leftarrow> assertEquals (g_0 pubIn) (g_0 (publicInput earlierProof));
     _ \<leftarrow> assertEquals (g_1 pubIn) (g_1 (publicInput earlierProof));
     out \<leftarrow> euclidGcd (publicOutput earlierProof);
     Some \<lparr>publicInput = pubIn, publicOutput = out\<rparr>
   }"

text \<open>
  The driver of run.ts: the base case, then step calls while the published output is
  not solved. The outer \<open>None\<close> is a loop that never ends, the inner one a call that
  threw.
\<close>

partial_function (option) drive :: "GcdPair \<Rightarrow> Proof \<Rightarrow> Proof option option" where
  "drive pair proof =
     (if isSolved (publicOutput proof) then Some (Some proof)
      else (case step pair proof of
              None \<Rightarrow> Some None
            | Some proof' \<Rightarrow> drive pair proof'))"

definition run :: "GcdPair \<Rightarrow> Proof option option" where
  "run pair =
     (case baseCase pair of
        None \<Rightarrow> Some None
      | Some proof \<Rightarrow> drive pair proof)"

section \<open>Values of limb vectors\<close>

text \<open>
  The integer that a little-endian limb vector stands for, the limb vector of a
  non-negative integer, and the limb invariant of the data model: exactly \<open>LIMB_NUM\<close>
  limbs, each in \<open>[0, 2^116)\<close>.
\<close>

fun limbs_val :: "int list \<Rightarrow> int" where
  "limbs_val [] = 0"
| "limbs_val (x # xs) = x + MODULUS * limbs_val xs"

fun to_limbs :: "nat \<Rightarrow> int \<Rightarrow> int list" where
  "to_limbs 0 x = []"
| "to_limbs (Suc n) x = (x mod MODULUS) # to_limbs n (x div MODULUS)"

definition limbs_ok :: "int list \<Rightarrow> bool" where
  "limbs_ok xs = (length xs = LIMB_NUM \<and> list_all (\<lambda>x. 0 \<le> x \<and> x < MODULUS) xs)"

definition inrange :: "Bigint2048 \<Rightarrow> bool" where
  "inrange a = limbs_ok (fields' a)"

definition BOUND :: int where
  "BOUND = 2 ^ 2088"

text \<open>The three-way comparison of two integers.\<close>

definition compare3 :: "int \<Rightarrow> int \<Rightarrow> Ordering" where
  "compare3 u v = (if u < v then Less else if u = v then Equal else Greater)"

text \<open>
  The sums of \<open>multiply_delta\<close> (without squaring) over the integers, with no
  reduction modulo the field order.
\<close>

definition delta_int :: "int list \<Rightarrow> int list \<Rightarrow> int list \<Rightarrow> int list \<Rightarrow> int list \<Rightarrow> int list" where
  "delta_int X Y Q R P =
     fold (\<lambda>i delta.
        (let delta = fold (\<lambda>j delta. delta[i + j := delta ! (i + j) + X ! i * Y ! j])
                      [0..<LIMB_NUM] delta;
             delta = fold (\<lambda>j delta. delta[i + j := delta ! (i + j) - Q ! i * P ! j])
                      [0..<LIMB_NUM] delta
         in delta[i := delta ! i - R ! i]))
       [0..<LIMB_NUM] (replicate (2 * LIMB_NUM - 1) 0)"

text \<open>A pair of non-negative values with limbs in range, and the integers it stands for.\<close>

definition nonneg_pair :: "GcdPair \<Rightarrow> bool" where
  "nonneg_pair p = (inrange (g_0 p) \<and> inrange (g_1 p) \<and> 0 \<le> toBigInt (g_0 p) \<and> 0 \<le> toBigInt (g_1 p))"

definition pair_val :: "GcdPair \<Rightarrow> int \<times> int" where
  "pair_val p = (toBigInt (g_0 p), toBigInt (g_1 p))"

text \<open>One step of Euclid's algorithm on integers; it stays put once the second is zero.\<close>

definition euclid_step :: "int \<times> int \<Rightarrow> int \<times> int" where
  "euclid_step v = (if snd v = 0 then v else (snd v, fst v mod snd v))"


section \<open>Limb vectors and their values\<close>

lemma MODULUS_eq: "MODULUS = 2 ^ 116"
  by (simp add: MODULUS_def LIMB_BITS_def)

lemma MODULUS_pos: "0 < MODULUS"
  by (simp add: MODULUS_eq)

lemma MASK_eq: "MASK = mask 116"
  by (simp add: MASK_def MODULUS_eq mask_eq_exp_minus_1)

lemma MODULUS_lt_ORDER: "MODULUS < Field_ORDER"
  by (simp add: MODULUS_eq Field_ORDER_def)

lemma Field_from_id: "0 \<le> x \<Longrightarrow> x < Field_ORDER \<Longrightarrow> Field_from x = x"
  by (simp add: Field_from_def)

lemma Field_from_limb: "Field_from (x mod MODULUS) = x mod MODULUS"
proof -
  have "x mod MODULUS < MODULUS" using MODULUS_pos by simp
  then have "x mod MODULUS < Field_ORDER" using MODULUS_lt_ORDER by linarith
  moreover have "0 \<le> x mod MODULUS" using MODULUS_pos by simp
  ultimately show ?thesis by (rule Field_from_id[rotated])
qed

lemma from_limbs_eq:
  "from_limbs n x fs = (fs @ to_limbs n x, x div MODULUS ^ n)"
proof (induction n arbitrary: x fs)
  case 0
  then show ?case by simp
next
  case (Suc n)
  have a: "x AND MASK = x mod MODULUS"
    by (simp add: MASK_eq MODULUS_eq take_bit_eq_mask[symmetric] take_bit_eq_mod)
  have d: "drop_bit LIMB_BITS x = x div MODULUS"
    by (simp add: drop_bit_eq_div MODULUS_eq LIMB_BITS_def)
  have "(x div MODULUS) div MODULUS ^ n = x div MODULUS ^ Suc n"
    using MODULUS_pos by (simp add: zdiv_zmult2_eq)
  then show ?case
    by (simp add: Suc.IH a d Field_from_limb del: power_Suc)
qed

lemma length_to_limbs [simp]: "length (to_limbs n x) = n"
  by (induction n arbitrary: x) simp_all

lemma limbs_val_to_limbs: "limbs_val (to_limbs n x) = x mod MODULUS ^ n"
proof (induction n arbitrary: x)
  case 0
  then show ?case by simp
next
  case (Suc n)
  have "x mod MODULUS + MODULUS * ((x div MODULUS) mod MODULUS ^ n) = x mod (MODULUS * MODULUS ^ n)"
    using MODULUS_pos by (simp add: zmod_zmult2_eq)
  then show ?case by (simp add: Suc.IH)
qed

lemma list_all_to_limbs: "list_all (\<lambda>x. 0 \<le> x \<and> x < MODULUS) (to_limbs n x)"
  using MODULUS_pos by (induction n arbitrary: x) simp_all

lemma limbs_val_append: "limbs_val (xs @ ys) = limbs_val xs + MODULUS ^ length xs * limbs_val ys"
  by (induction xs) (simp_all add: algebra_simps)

lemma limbs_val_bounds:
  "list_all (\<lambda>x. 0 \<le> x \<and> x < MODULUS) xs \<Longrightarrow> 0 \<le> limbs_val xs \<and> limbs_val xs < MODULUS ^ length xs"
proof (induction xs)
  case Nil
  then show ?case by simp
next
  case (Cons x xs)
  then have x: "0 \<le> x" "x < MODULUS" and v: "0 \<le> limbs_val xs" "limbs_val xs < MODULUS ^ length xs"
    by simp_all
  have "limbs_val xs + 1 \<le> MODULUS ^ length xs" using v by simp
  then have "MODULUS * (limbs_val xs + 1) \<le> MODULUS * MODULUS ^ length xs"
    using MODULUS_pos by (simp add: mult_left_mono)
  then have "x + MODULUS * limbs_val xs < MODULUS * MODULUS ^ length xs"
    using x by (simp add: algebra_simps)
  moreover have "0 \<le> x + MODULUS * limbs_val xs"
    using x v MODULUS_pos by simp
  ultimately show ?case by simp
qed

lemma to_limbs_limbs_val:
  "list_all (\<lambda>x. 0 \<le> x \<and> x < MODULUS) xs \<Longrightarrow> to_limbs (length xs) (limbs_val xs) = xs"
proof (induction xs)
  case Nil
  then show ?case by simp
next
  case (Cons x xs)
  then have x: "0 \<le> x" "x < MODULUS" by simp_all
  have m: "(x + MODULUS * limbs_val xs) mod MODULUS = x" using x by simp
  have d: "(x + MODULUS * limbs_val xs) div MODULUS = limbs_val xs" using x MODULUS_pos by simp
  show ?case using Cons by (simp add: m d)
qed

lemma fold_horner:
  "n \<le> length xs \<Longrightarrow>
   fold (\<lambda>i v. push_bit LIMB_BITS v + xs ! i) (rev [0..<n]) acc
     = acc * MODULUS ^ n + limbs_val (take n xs)"
proof (induction n arbitrary: acc)
  case 0
  then show ?case by simp
next
  case (Suc n)
  have t: "take (Suc n) xs = take n xs @ [xs ! n]"
    using Suc.prems by (simp add: take_Suc_conv_app_nth)
  have p: "push_bit LIMB_BITS acc = acc * MODULUS"
    by (simp add: push_bit_eq_mult MODULUS_eq LIMB_BITS_def)
  show ?case using Suc.prems
    by (simp add: Suc.IH t p limbs_val_append algebra_simps)
qed

lemma toBigInt_eq:
  "length (fields' a) = LIMB_NUM \<Longrightarrow>
   toBigInt a = (if negative a then - limbs_val (fields' a) else limbs_val (fields' a))"
  by (simp add: toBigInt_def fold_horner Let_def)

lemma BOUND_eq: "BOUND = MODULUS ^ LIMB_NUM"
  by (simp add: BOUND_def MODULUS_eq LIMB_NUM_def)

lemma Bigint2048_from_eq:
  "Bigint2048_from x =
     (if \<bar>x\<bar> < BOUND then Some \<lparr>negative = x < 0, fields' = to_limbs LIMB_NUM \<bar>x\<bar>\<rparr> else None)"
proof -
  have pos: "0 < BOUND" by (simp add: BOUND_def)
  have "\<bar>x\<bar> div BOUND = 0 \<longleftrightarrow> \<bar>x\<bar> < BOUND"
    using pos by (auto simp add: zdiv_eq_0_iff)
  moreover have "(if x < 0 then - x else x) = \<bar>x\<bar>" by simp
  ultimately show ?thesis
    unfolding Bigint2048_from_def Let_def from_limbs_eq BOUND_eq[symmetric]
    by (simp del: abs_if)
qed


section \<open>The 116-bit range check\<close>

lemma and_low_bits: "(x::int) AND (push_bit n 1 - 1) = x mod 2 ^ n"
  by (simp add: mask_eq_exp_minus_1[symmetric] take_bit_eq_mask[symmetric] take_bit_eq_mod)

lemma top12_zero_iff:
  assumes "0 \<le> x" "x < 2 ^ 64"
  shows "drop_bit 52 x AND mask 12 = 0 \<longleftrightarrow> x < (2 ^ 52 :: int)"
proof -
  have "x div 2 ^ 52 < 2 ^ 12" using assms by simp
  moreover have "0 \<le> x div 2 ^ 52" using assms by simp
  ultimately have "(x div 2 ^ 52) mod 2 ^ 12 = x div 2 ^ 52" by simp
  then have "drop_bit 52 x AND mask 12 = x div 2 ^ 52"
    by (simp add: take_bit_eq_mask[symmetric] take_bit_eq_mod drop_bit_eq_div)
  moreover have "x div 2 ^ 52 = 0 \<longleftrightarrow> x < 2 ^ 52"
    using assms by (auto simp add: zdiv_eq_0_iff)
  ultimately show ?thesis by simp
qed

lemma rangeCheck116_constraints_iff:
  "rangeCheck116_constraints x x0 x1 \<longleftrightarrow>
     0 \<le> x0 \<and> x0 < 2 ^ 64 \<and> 0 \<le> x1 \<and> x1 < 2 ^ 52 \<and> x0 + x1 * 2 ^ 64 = x"
proof (cases "0 \<le> x0 \<and> x0 < 2 ^ 64 \<and> 0 \<le> x1 \<and> x1 < 2 ^ 64")
  case False
  then show ?thesis
    by (auto simp add: rangeCheck116_constraints_def rangeCheck64_def split: option.splits)
next
  case True
  then have r: "0 \<le> x0" "x0 < 2 ^ 64" "0 \<le> x1" "x1 < 2 ^ 64" by simp_all
  have hd: "(drop_bit 52 x1 AND mask 12 = 0) = (x1 < 2 ^ 52)"
    using top12_zero_iff[OF r(3,4)] .
  have m: "Field_mul x1 (push_bit 64 1) = x1 * 2 ^ 64"
    using r by (simp add: Field_mul_def Field_ORDER_def)
  have a: "Field_add x0 (x1 * 2 ^ 64) = x0 + x1 * 2 ^ 64"
    using r by (simp add: Field_add_def Field_ORDER_def)
  have "rangeCheck116_constraints x x0 x1 \<longleftrightarrow>
          drop_bit 52 x1 AND mask 12 = 0 \<and> Field_add x0 (Field_mul x1 (push_bit 64 1)) = x"
    using r by (simp add: rangeCheck116_constraints_def rangeCheck64_def Field_equals_def)
  also have "\<dots> \<longleftrightarrow> x1 < 2 ^ 52 \<and> x0 + x1 * 2 ^ 64 = x"
    unfolding hd m a ..
  finally show ?thesis using r by auto
qed

lemma rangeCheck116_sat_iff:
  "(\<exists>x0 x1. rangeCheck116_constraints x x0 x1) \<longleftrightarrow> 0 \<le> x \<and> x < 2 ^ 116"
proof
  assume "\<exists>x0 x1. rangeCheck116_constraints x x0 x1"
  then obtain x0 x1 where "0 \<le> x0" "x0 < 2 ^ 64" "0 \<le> x1" "x1 < 2 ^ 52" "x0 + x1 * 2 ^ 64 = x"
    unfolding rangeCheck116_constraints_iff by blast
  then show "0 \<le> x \<and> x < 2 ^ 116" by auto
next
  assume x: "0 \<le> x \<and> x < 2 ^ 116"
  then have "x div 2 ^ 64 < 2 ^ 52" by (simp; linarith?)
  then have "rangeCheck116_constraints x (x mod 2 ^ 64) (x div 2 ^ 64)"
    unfolding rangeCheck116_constraints_iff using x by (auto simp add: pos_imp_zdiv_nonneg_iff)
  then show "\<exists>x0 x1. rangeCheck116_constraints x x0 x1" by blast
qed

lemma rangeCheck116_iff:
  assumes "0 \<le> x" "x < Field_ORDER"
  shows "rangeCheck116 x = Some () \<longleftrightarrow> x < 2 ^ 116"
proof -
  have f0: "Field_from (x mod 2 ^ 64) = x mod 2 ^ 64"
    by (rule Field_from_id) (simp_all add: Field_ORDER_def)
  have "x div 2 ^ 64 \<le> x" using assms(1) by simp
  then have f1: "Field_from (drop_bit 64 x) = x div 2 ^ 64"
    using assms by (simp add: drop_bit_eq_div Field_from_id)
  have "x < 2 ^ 116 \<Longrightarrow> x div 2 ^ 64 < 2 ^ 52" by (simp; linarith?)
  moreover have "x div 2 ^ 64 < 2 ^ 52 \<Longrightarrow> x < 2 ^ 116" by (simp; linarith?)
  ultimately have "rangeCheck116_constraints x (x mod 2 ^ 64) (x div 2 ^ 64) \<longleftrightarrow> x < 2 ^ 116"
    unfolding rangeCheck116_constraints_iff using assms(1) by auto
  then show ?thesis
    unfolding rangeCheck116_def Let_def and_low_bits f0 f1 assertTrue_def by simp
qed


lemma inrange_from:
  "inrange \<lparr>negative = s, fields' = to_limbs LIMB_NUM v\<rparr>"
  by (simp add: inrange_def limbs_ok_def list_all_to_limbs)

lemma toBigInt_from:
  assumes "\<bar>x\<bar> < BOUND"
  shows "toBigInt \<lparr>negative = x < 0, fields' = to_limbs LIMB_NUM \<bar>x\<bar>\<rparr> = x"
proof -
  have "\<bar>x\<bar> mod MODULUS ^ LIMB_NUM = \<bar>x\<bar>"
    using assms by (simp add: BOUND_eq)
  then have "limbs_val (to_limbs LIMB_NUM \<bar>x\<bar>) = \<bar>x\<bar>"
    by (simp only: limbs_val_to_limbs)
  then show ?thesis
    by (cases "x < 0") (simp_all add: toBigInt_eq)
qed

text \<open>
  C8: a native integer of magnitude below \<open>2^2088\<close> is constructed and read back
  unchanged, with every limb in range; one of magnitude \<open>2^2088\<close> or more is refused
  at construction.
\<close>

theorem from_toBigInt_roundtrip:
  "(\<bar>x\<bar> < 2 ^ 2088 \<longrightarrow> (\<exists>a. Bigint2048_from x = Some a \<and> inrange a \<and> toBigInt a = x))
   \<and> (2 ^ 2088 \<le> \<bar>x\<bar> \<longrightarrow> Bigint2048_from x = None)"
  unfolding BOUND_def[symmetric] Bigint2048_from_eq
  using toBigInt_from[of x] inrange_from by simp

theorem from_toBigInt_roundtrip_witness:
  "(\<exists>a. Bigint2048_from (- 48) = Some a \<and> inrange a \<and> toBigInt a = - 48)
   \<and> Bigint2048_from (2 ^ 2088) = None"
  using from_toBigInt_roundtrip[of "- 48"] from_toBigInt_roundtrip[of "2 ^ 2088"] by simp

lemma forM_unit:
  "forM is (\<lambda>i _. f i) () = Some () \<longleftrightarrow> (\<forall>i \<in> set is. f i = Some ())"
  by (induction "is") (auto split: option.splits)

lemma check_iff:
  assumes "length (fields' a) = LIMB_NUM" "list_all (\<lambda>x. 0 \<le> x \<and> x < Field_ORDER) (fields' a)"
  shows "check a = Some () \<longleftrightarrow> inrange a"
proof -
  have fe: "\<And>i. i < LIMB_NUM \<Longrightarrow> 0 \<le> fields' a ! i \<and> fields' a ! i < Field_ORDER"
    using assms by (simp add: list_all_length)
  have "check a = Some () \<longleftrightarrow> (\<forall>i < LIMB_NUM. rangeCheck116 (fields' a ! i) = Some ())"
    by (auto simp add: check_def forM_unit bind_eq_Some_conv)
  also have "\<dots> \<longleftrightarrow> (\<forall>i < LIMB_NUM. fields' a ! i < 2 ^ 116)"
    using fe by (simp add: rangeCheck116_iff)
  also have "\<dots> \<longleftrightarrow> inrange a"
    using assms fe by (auto simp add: inrange_def limbs_ok_def list_all_length MODULUS_eq)
  finally show ?thesis .
qed

lemma check_inrange: "inrange a \<Longrightarrow> check a = Some ()"
proof -
  assume a: "inrange a"
  then have "list_all (\<lambda>x. 0 \<le> x \<and> x < Field_ORDER) (fields' a)"
    using MODULUS_lt_ORDER by (auto simp add: inrange_def limbs_ok_def list_all_length)
  then show ?thesis using a check_iff[of a] by (simp add: inrange_def limbs_ok_def)
qed

text \<open>
  C9: for a native scalar \<open>x\<close> the constraints of \<open>rangeCheck116\<close> have a solution
  in the witnesses \<open>x0\<close>, \<open>x1\<close> exactly when \<open>x < 2^116\<close>, and the witnesses the
  function computes itself pass exactly then; at \<open>x = 2^116\<close> there is no solution.
\<close>

theorem rangeCheck116_satisfiable_iff:
  "0 \<le> x \<Longrightarrow> x < Field_ORDER \<Longrightarrow>
     ((\<exists>x0 x1. rangeCheck116_constraints x x0 x1) \<longleftrightarrow> x < 2 ^ 116)
     \<and> (rangeCheck116 x = Some () \<longleftrightarrow> x < 2 ^ 116)
     \<and> \<not> (\<exists>x0 x1. rangeCheck116_constraints (2 ^ 116) x0 x1)
     \<and> rangeCheck116 (2 ^ 116) = None"
proof -
  assume x: "0 \<le> x" "x < Field_ORDER"
  have "rangeCheck116 (2 ^ 116) \<noteq> Some ()"
    using rangeCheck116_iff[of "2 ^ 116"] by (simp add: Field_ORDER_def)
  then have "rangeCheck116 (2 ^ 116) = None" by (cases "rangeCheck116 (2 ^ 116)") simp_all
  then show ?thesis
    using x rangeCheck116_sat_iff[of x] rangeCheck116_sat_iff[of "2 ^ 116"] rangeCheck116_iff[of x]
    by simp
qed

theorem rangeCheck116_satisfiable_iff_witness:
  "(0::int) \<le> 5 \<and> 5 < Field_ORDER \<and> (\<exists>x0 x1. rangeCheck116_constraints 5 x0 x1)
   \<and> rangeCheck116 5 = Some ()
   \<and> (0::int) \<le> 2 ^ 116 \<and> 2 ^ 116 < Field_ORDER \<and> rangeCheck116 (2 ^ 116) = None"
  using rangeCheck116_satisfiable_iff[of 5] by (simp add: Field_ORDER_def)


section \<open>Comparison and equality\<close>

lemma Field_ORDER_pos: "0 < Field_ORDER"
  by (simp add: Field_ORDER_def)

lemma Field_ORDER_gt2: "2 < Field_ORDER"
  by (simp add: Field_ORDER_def)

lemma Provable_switch3:
  assumes "0 \<le> x" "x < Field_ORDER" "0 \<le> y" "y < Field_ORDER" "0 \<le> z" "z < Field_ORDER"
  shows "Provable_switch [a, b, c] [x, y, z] =
           (if (a \<and> b) \<or> (a \<and> c) \<or> (b \<and> c) then None
            else Some (if a then x else if b then y else if c then z else 0))"
  using assms by (auto simp add: Provable_switch_def Field_add_def Field_mul_def Bool_toField_def)

lemma Provable_switch4:
  assumes "0 \<le> x" "x < Field_ORDER" "0 \<le> y" "y < Field_ORDER"
    "0 \<le> z" "z < Field_ORDER" "0 \<le> w" "w < Field_ORDER"
  shows "Provable_switch [a, b, c, d] [x, y, z, w] =
           (if length (filter (\<lambda>b. b) [a, b, c, d]) > 1 then None
            else Some (if a then x else if b then y else if c then z else if d then w else 0))"
  using assms by (auto simp add: Provable_switch_def Field_add_def Field_mul_def Bool_toField_def)

lemma Ordering_val_field: "0 \<le> Ordering_val s \<and> Ordering_val s < Field_ORDER"
  using Field_ORDER_gt2 by (cases s) simp_all

lemma Ordering_val_inj: "Ordering_val s = Ordering_val t \<longleftrightarrow> s = t"
  by (cases s; cases t) simp_all

declare Ordering_val.simps [simp del]

lemma Provable_switch3_Ordering:
  "Provable_switch [a, b, c] [Ordering_val x, Ordering_val y, Ordering_val z] =
           (if (a \<and> b) \<or> (a \<and> c) \<or> (b \<and> c) then None
            else Some (if a then Ordering_val x else if b then Ordering_val y
                       else if c then Ordering_val z else 0))"
  using Ordering_val_field[of x] Ordering_val_field[of y] Ordering_val_field[of z]
  by (intro Provable_switch3) simp_all

lemma cmp_limb_eq:
  "cmp_limb this other i (Ordering_val s) =
     Some (Ordering_val (if s = Equal then compare3 (fields' this ! i) (fields' other ! i) else s))"
proof -
  let ?t = "fields' this ! i" and ?o = "fields' other ! i"
  have inner: "Provable_switch [Field_greaterThan ?o ?t, Field_equals ?o ?t, Field_lessThan ?o ?t]
        [Ordering_val Less, Ordering_val Equal, Ordering_val Greater]
      = Some (Ordering_val (compare3 ?t ?o))"
    by (simp add: Provable_switch3_Ordering Field_greaterThan_def Field_equals_def
        Field_lessThan_def compare3_def)
  have outer: "Provable_switch
        [Field_equals (Ordering_val s) (Ordering_val Less),
         Field_equals (Ordering_val s) (Ordering_val Equal),
         Field_equals (Ordering_val s) (Ordering_val Greater)]
        [Ordering_val Less, Ordering_val t, Ordering_val Greater]
      = Some (Ordering_val (if s = Equal then t else s))" for t
    by (cases s) (simp_all add: Provable_switch3_Ordering Field_equals_def Ordering_val_inj)
  show ?thesis
    unfolding cmp_limb_def inner by (simp add: outer)
qed

lemma Provable_switch4_Ordering:
  "Provable_switch [a, b, c, d] [Ordering_val x, Ordering_val y, Ordering_val z, Ordering_val w] =
           (if length (filter (\<lambda>b. b) [a, b, c, d]) > 1 then None
            else Some (if a then Ordering_val x else if b then Ordering_val y
                       else if c then Ordering_val z else if d then Ordering_val w else 0))"
  using Ordering_val_field[of x] Ordering_val_field[of y] Ordering_val_field[of z]
    Ordering_val_field[of w]
  by (intro Provable_switch4) simp_all

lemma limbs_val_replicate_zero [simp]: "limbs_val (replicate n 0) = 0"
  by (induction n) simp_all

lemma compare3_snoc:
  assumes "0 \<le> u" "u < M" "0 \<le> v" "v < M"
  shows "compare3 (u + M * x) (v + M * y) = (if compare3 x y = Equal then compare3 u v else compare3 x y)"
proof -
  consider "x < y" | "x = y" | "y < x" by linarith
  then show ?thesis
  proof cases
    case 1
    then have "x + 1 \<le> y" by simp
    then have "M * (x + 1) \<le> M * y" using assms by (simp add: mult_left_mono)
    then have "u + M * x < v + M * y" using assms by (simp add: algebra_simps)
    then show ?thesis using 1 by (simp add: compare3_def)
  next
    case 2
    then show ?thesis by (simp add: compare3_def)
  next
    case 3
    then have "y + 1 \<le> x" by simp
    then have "M * (y + 1) \<le> M * x" using assms by (simp add: mult_left_mono)
    then have "v + M * y < u + M * x" using assms by (simp add: algebra_simps)
    then show ?thesis using 3 by (simp add: compare3_def)
  qed
qed

lemma limbs_val_take_Suc:
  "n < length xs \<Longrightarrow> limbs_val (take (Suc n) xs) = limbs_val (take n xs) + MODULUS ^ n * xs ! n"
  by (simp add: take_Suc_conv_app_nth limbs_val_append)

lemma list_all_take: "list_all P xs \<Longrightarrow> list_all P (take n xs)"
  by (simp add: list_all_length)

lemma limbs_val_take_bounds:
  assumes "list_all (\<lambda>x. 0 \<le> x \<and> x < MODULUS) xs" "n \<le> length xs"
  shows "0 \<le> limbs_val (take n xs)" "limbs_val (take n xs) < MODULUS ^ n"
  using limbs_val_bounds[OF list_all_take[OF assms(1), of n]] assms(2) by simp_all

lemma cmp_scan:
  assumes "list_all (\<lambda>x. 0 \<le> x \<and> x < MODULUS) (fields' this)"
    "list_all (\<lambda>x. 0 \<le> x \<and> x < MODULUS) (fields' other)"
    "n \<le> length (fields' this)" "n \<le> length (fields' other)"
  shows "forM (rev [0..<n]) (cmp_limb this other) (Ordering_val s) =
     Some (Ordering_val (if s = Equal
        then compare3 (limbs_val (take n (fields' this))) (limbs_val (take n (fields' other)))
        else s))"
  using assms(3,4)
proof (induction n arbitrary: s)
  case 0
  then show ?case by (simp add: compare3_def)
next
  case (Suc n)
  let ?xs = "fields' this" and ?ys = "fields' other"
  have n: "n < length ?xs" "n < length ?ys" "n \<le> length ?xs" "n \<le> length ?ys"
    using Suc.prems by simp_all
  have c: "compare3 (limbs_val (take (Suc n) ?xs)) (limbs_val (take (Suc n) ?ys))
      = (if compare3 (?xs ! n) (?ys ! n) = Equal
         then compare3 (limbs_val (take n ?xs)) (limbs_val (take n ?ys))
         else compare3 (?xs ! n) (?ys ! n))"
    unfolding limbs_val_take_Suc[OF n(1)] limbs_val_take_Suc[OF n(2)]
    by (rule compare3_snoc)
       (use limbs_val_take_bounds[OF assms(1) n(3)] limbs_val_take_bounds[OF assms(2) n(4)] in simp_all)
  show ?case
    using n by (simp add: cmp_limb_eq Suc.IH c del: take_Suc)
qed

lemma isZero_fold:
  "n \<le> length xs \<Longrightarrow>
   fold (\<lambda>i state. state \<and> Field_equals (xs ! i) 0) [0..<n] st = (st \<and> (\<forall>i<n. xs ! i = 0))"
  by (induction n arbitrary: st) (auto simp add: Field_equals_def less_Suc_eq)

lemma limbs_val_zero_iff:
  "list_all (\<lambda>x. 0 \<le> x \<and> x < MODULUS) xs \<Longrightarrow> limbs_val xs = 0 \<longleftrightarrow> (\<forall>i<length xs. xs ! i = 0)"
proof (induction xs)
  case Nil
  then show ?case by simp
next
  case (Cons x xs)
  then have x: "0 \<le> x" "x < MODULUS" and a: "list_all (\<lambda>x. 0 \<le> x \<and> x < MODULUS) xs"
    by simp_all
  have v: "0 \<le> limbs_val xs" using limbs_val_bounds[OF a] by simp
  have "x + MODULUS * limbs_val xs = 0 \<longleftrightarrow> x = 0 \<and> limbs_val xs = 0"
  proof
    assume e: "x + MODULUS * limbs_val xs = 0"
    have "0 \<le> MODULUS * limbs_val xs" using v MODULUS_pos by simp
    then have "x = 0" "MODULUS * limbs_val xs = 0" using e x by linarith+
    then show "x = 0 \<and> limbs_val xs = 0" using MODULUS_pos by simp
  qed simp
  then show ?case using Cons.IH[OF a] by (auto simp add: nth_Cons split: nat.splits)
qed

lemma isZero_iff:
  "inrange a \<Longrightarrow> isZero a \<longleftrightarrow> limbs_val (fields' a) = 0"
  by (simp add: isZero_def isZero_fold limbs_val_zero_iff inrange_def limbs_ok_def)

lemma limbs_val_inj:
  assumes "list_all (\<lambda>x. 0 \<le> x \<and> x < MODULUS) xs" "list_all (\<lambda>x. 0 \<le> x \<and> x < MODULUS) ys"
    "length xs = length ys" "limbs_val xs = limbs_val ys"
  shows "xs = ys"
proof -
  have "xs = to_limbs (length xs) (limbs_val xs)"
    using to_limbs_limbs_val[OF assms(1)] by (rule sym)
  also have "\<dots> = to_limbs (length ys) (limbs_val ys)"
    by (simp only: assms(3,4))
  also have "\<dots> = ys"
    by (rule to_limbs_limbs_val[OF assms(2)])
  finally show ?thesis .
qed

lemma equals_fold:
  "n \<le> length xs \<Longrightarrow> n \<le> length ys \<Longrightarrow>
   fold (\<lambda>i (bothAreZero, allEqual).
          (let allEqual = (allEqual \<and> Field_equals (xs ! i) (ys ! i));
               bothAreZero = (bothAreZero \<and> Field_equals (xs ! i) 0);
               bothAreZero = (bothAreZero \<and> Field_equals (ys ! i) 0)
           in (bothAreZero, allEqual)))
     [0..<n] (bz, ae)
   = (bz \<and> (\<forall>i<n. xs ! i = 0 \<and> ys ! i = 0), ae \<and> (\<forall>i<n. xs ! i = ys ! i))"
  by (induction n arbitrary: bz ae) (auto simp add: Field_equals_def less_Suc_eq)

lemma equals_limbs:
  assumes "length (fields' a) = LIMB_NUM" "length (fields' b) = LIMB_NUM"
  shows "equals a b \<longleftrightarrow>
     (\<forall>i<LIMB_NUM. fields' a ! i = 0 \<and> fields' b ! i = 0)
     \<or> (negative a = negative b \<and> fields' a = fields' b)"
proof -
  have "fields' a = fields' b \<longleftrightarrow> (\<forall>i<LIMB_NUM. fields' a ! i = fields' b ! i)"
    using assms by (auto simp add: list_eq_iff_nth_eq)
  moreover have "fold (\<lambda>i (bothAreZero, allEqual).
          (let allEqual = (allEqual \<and> Field_equals (fields' a ! i) (fields' b ! i));
               bothAreZero = (bothAreZero \<and> Field_equals (fields' a ! i) 0);
               bothAreZero = (bothAreZero \<and> Field_equals (fields' b ! i) 0)
           in (bothAreZero, allEqual)))
     [0..<LIMB_NUM] (True, negative a = negative b)
   = (True \<and> (\<forall>i<LIMB_NUM. fields' a ! i = 0 \<and> fields' b ! i = 0),
      negative a = negative b \<and> (\<forall>i<LIMB_NUM. fields' a ! i = fields' b ! i))"
    by (rule equals_fold) (simp_all add: assms)
  ultimately show ?thesis
    unfolding equals_def by simp
qed

lemma toBigInt_inrange:
  "inrange a \<Longrightarrow> toBigInt a = (if negative a then - limbs_val (fields' a) else limbs_val (fields' a))"
  by (simp add: toBigInt_eq inrange_def limbs_ok_def)

lemma limbs_val_nonneg: "inrange a \<Longrightarrow> 0 \<le> limbs_val (fields' a)"
  using limbs_val_bounds[of "fields' a"] by (simp add: inrange_def limbs_ok_def)

lemma limbs_val_lt_BOUND: "inrange a \<Longrightarrow> limbs_val (fields' a) < BOUND"
  using limbs_val_bounds[of "fields' a"] by (simp add: inrange_def limbs_ok_def BOUND_eq)

lemma abs_toBigInt: "inrange a \<Longrightarrow> \<bar>toBigInt a\<bar> = limbs_val (fields' a)"
  using limbs_val_nonneg[of a] by (simp add: toBigInt_inrange)

lemma equals_iff:
  assumes "inrange a" "inrange b"
  shows "equals a b \<longleftrightarrow> toBigInt a = toBigInt b"
proof -
  let ?A = "limbs_val (fields' a)" and ?B = "limbs_val (fields' b)"
  have la: "length (fields' a) = LIMB_NUM" and lb: "length (fields' b) = LIMB_NUM"
    and ra: "list_all (\<lambda>x. 0 \<le> x \<and> x < MODULUS) (fields' a)"
    and rb: "list_all (\<lambda>x. 0 \<le> x \<and> x < MODULUS) (fields' b)"
    using assms by (simp_all add: inrange_def limbs_ok_def)
  have z: "(\<forall>i<LIMB_NUM. fields' a ! i = 0 \<and> fields' b ! i = 0) \<longleftrightarrow> ?A = 0 \<and> ?B = 0"
    using limbs_val_zero_iff[OF ra] limbs_val_zero_iff[OF rb] la lb by auto
  have e: "fields' a = fields' b \<longleftrightarrow> ?A = ?B"
    using limbs_val_inj[OF ra rb] la lb by auto
  have "equals a b \<longleftrightarrow> (?A = 0 \<and> ?B = 0) \<or> (negative a = negative b \<and> ?A = ?B)"
    unfolding equals_limbs[OF la lb] z e ..
  also have "\<dots> \<longleftrightarrow> toBigInt a = toBigInt b"
    using limbs_val_nonneg[OF assms(1)] limbs_val_nonneg[OF assms(2)]
    by (auto simp add: toBigInt_inrange assms)
  finally show ?thesis .
qed

lemma cmp_eq:
  assumes "inrange a" "inrange b"
  shows "cmp a b = Some (Ordering_val (compare3 (toBigInt a) (toBigInt b)))"
proof -
  let ?A = "limbs_val (fields' a)" and ?B = "limbs_val (fields' b)"
  have la: "length (fields' a) = LIMB_NUM" and lb: "length (fields' b) = LIMB_NUM"
    and ra: "list_all (\<lambda>x. 0 \<le> x \<and> x < MODULUS) (fields' a)"
    and rb: "list_all (\<lambda>x. 0 \<le> x \<and> x < MODULUS) (fields' b)"
    using assms by (simp_all add: inrange_def limbs_ok_def)
  have scan: "forM (rev [0..<LIMB_NUM]) (cmp_limb a b) (Ordering_val Equal)
      = Some (Ordering_val (compare3 ?A ?B))"
    using cmp_scan[OF ra rb, of LIMB_NUM Equal] la lb by simp
  have flip: "Provable_switch
        [Field_equals (Ordering_val s) (Ordering_val Less),
         Field_equals (Ordering_val s) (Ordering_val Equal),
         Field_equals (Ordering_val s) (Ordering_val Greater)]
        [Ordering_val Greater, Ordering_val Equal, Ordering_val Less]
      = Some (Ordering_val (case s of Less \<Rightarrow> Greater | Equal \<Rightarrow> Equal | Greater \<Rightarrow> Less))" for s
    by (cases s) (simp_all add: Provable_switch3_Ordering Field_equals_def Ordering_val_inj)
  have nonneg: "0 \<le> ?A" "0 \<le> ?B"
    using limbs_val_nonneg assms by simp_all
  show ?thesis
    unfolding cmp_def scan
    using nonneg
    by (simp add: flip Provable_switch4_Ordering isZero_iff assms toBigInt_inrange compare3_def)
qed

text \<open>
  C6: on values with limbs in range, \<open>cmp\<close> returns \<open>Less\<close>, \<open>Equal\<close> or \<open>Greater\<close>
  according to the sign of the difference of the two integer values, and \<open>equals\<close>
  holds exactly when the two integer values are equal; a value whose limbs are all zero
  is zero whatever its sign bit, so the two zeros compare equal.
\<close>

theorem cmp_equals_match_values:
  "inrange a \<Longrightarrow> inrange b \<Longrightarrow>
     cmp a b = Some (Ordering_val
        (if toBigInt a - toBigInt b < 0 then Less
         else if toBigInt a - toBigInt b = 0 then Equal else Greater))
     \<and> (equals a b \<longleftrightarrow> toBigInt a = toBigInt b)
     \<and> (isZero a \<longrightarrow> toBigInt a = 0 \<and> toBigInt (neg a) = 0 \<and> equals a (neg a)
            \<and> cmp a (neg a) = Some (Ordering_val Equal))"
proof -
  assume a: "inrange a" and b: "inrange b"
  have n: "inrange (neg a)" using a by (simp add: inrange_def neg_def)
  have z: "isZero a \<Longrightarrow> toBigInt a = 0 \<and> toBigInt (neg a) = 0"
    using a n by (simp add: isZero_iff toBigInt_inrange neg_def)
  show ?thesis
    using z by (auto simp add: cmp_eq a b n equals_iff compare3_def)
qed

theorem cmp_equals_match_values_witness:
  "inrange \<lparr>negative = True, fields' = replicate 18 0\<rparr>
   \<and> inrange \<lparr>negative = False, fields' = 7 # replicate 17 0\<rparr>
   \<and> cmp \<lparr>negative = True, fields' = replicate 18 0\<rparr> \<lparr>negative = False, fields' = 7 # replicate 17 0\<rparr>
       = Some (Ordering_val Less)
   \<and> \<not> equals \<lparr>negative = True, fields' = replicate 18 0\<rparr> \<lparr>negative = False, fields' = 7 # replicate 17 0\<rparr>
   \<and> isZero \<lparr>negative = True, fields' = replicate 18 0\<rparr>
   \<and> equals \<lparr>negative = True, fields' = replicate 18 0\<rparr> (neg \<lparr>negative = True, fields' = replicate 18 0\<rparr>)"
proof -
  let ?z = "\<lparr>negative = True, fields' = replicate 18 0\<rparr>"
  let ?s = "\<lparr>negative = False, fields' = 7 # replicate 17 0\<rparr>"
  have rz: "inrange ?z" and rs: "inrange ?s"
    by (simp_all add: inrange_def limbs_ok_def LIMB_NUM_def MODULUS_eq list_all_iff)
  have vz: "toBigInt ?z = 0" and vs: "toBigInt ?s = 7"
    by (simp_all add: toBigInt_inrange rz rs)
  have iz: "isZero ?z" by (simp add: isZero_iff rz)
  show ?thesis
    using cmp_equals_match_values[OF rz rs] rz rs iz by (simp add: vz vs)
qed


section \<open>Addition and subtraction\<close>

lemma add_limb_step:
  fixes x y :: int and c :: bool
  assumes "0 \<le> x" "x < MODULUS" "0 \<le> y" "y < MODULUS"
  defines "s \<equiv> Field_add (Field_add x y) (Bool_toField c)"
  shows "Field_greaterThan s MASK \<longleftrightarrow> MODULUS \<le> x + y + (if c then 1 else 0)"
    and "Provable_if (Field_greaterThan s MASK) (Field_sub s MODULUS) s
           = x + y + (if c then 1 else 0) - (if MODULUS \<le> x + y + (if c then 1 else 0) then MODULUS else 0)"
proof -
  have s: "s = x + y + (if c then 1 else 0)"
    using assms(1-4) unfolding s_def
    by (simp add: Field_add_def Bool_toField_def MODULUS_eq Field_ORDER_def)
  show "Field_greaterThan s MASK \<longleftrightarrow> MODULUS \<le> x + y + (if c then 1 else 0)"
    unfolding s by (auto simp add: Field_greaterThan_def MASK_def)
  have "MODULUS \<le> s \<Longrightarrow> Field_sub s MODULUS = s - MODULUS"
    using assms(1-4) unfolding s
    by (simp add: Field_sub_def MODULUS_eq Field_ORDER_def)
  then show "Provable_if (Field_greaterThan s MASK) (Field_sub s MODULUS) s
           = x + y + (if c then 1 else 0) - (if MODULUS \<le> x + y + (if c then 1 else 0) then MODULUS else 0)"
    unfolding Provable_if_def using s by (auto simp add: Field_greaterThan_def MASK_def)
qed

lemma sub_limb_step:
  fixes x y :: int and c :: bool
  assumes "0 \<le> x" "x < MODULUS" "0 \<le> y" "y < MODULUS"
  defines "s \<equiv> Field_sub (Field_sub x y) (Bool_toField c)"
  shows "Field_greaterThan s MASK \<longleftrightarrow> x - y - (if c then 1 else 0) < 0"
    and "Provable_if (Field_greaterThan s MASK) (Field_add s MODULUS) s
           = x - y - (if c then 1 else 0) + (if x - y - (if c then 1 else 0) < 0 then MODULUS else 0)"
proof -
  let ?d = "x - y - (if c then 1 else 0)"
  have s0: "s = ?d mod Field_ORDER"
    unfolding s_def by (simp add: Field_sub_def Bool_toField_def mod_simps)
  have neg: "?d < 0 \<Longrightarrow> s = ?d + Field_ORDER"
  proof -
    assume d: "?d < 0"
    have "(?d + Field_ORDER) mod Field_ORDER = ?d + Field_ORDER"
      using d assms(1-4) by (intro mod_pos_pos_trivial) (simp_all add: MODULUS_eq Field_ORDER_def)
    then show "s = ?d + Field_ORDER" unfolding s0 by simp
  qed
  have pos: "0 \<le> ?d \<Longrightarrow> s = ?d"
    unfolding s0 using assms(1-4) by (simp add: MODULUS_eq Field_ORDER_def)
  show g: "Field_greaterThan s MASK \<longleftrightarrow> ?d < 0"
  proof (cases "?d < 0")
    case True
    then show ?thesis using neg assms(1-4)
      by (simp add: Field_greaterThan_def MASK_def MODULUS_eq Field_ORDER_def)
  next
    case False
    then show ?thesis using pos assms(1-4)
      by (simp add: Field_greaterThan_def MASK_def)
  qed
  show "Provable_if (Field_greaterThan s MASK) (Field_add s MODULUS) s
           = ?d + (if ?d < 0 then MODULUS else 0)"
  proof (cases "?d < 0")
    case True
    have "Field_add s MODULUS = (?d + MODULUS + Field_ORDER) mod Field_ORDER"
      unfolding neg[OF True] Field_add_def by (simp add: algebra_simps)
    also have "\<dots> = (?d + MODULUS) mod Field_ORDER"
      by (rule mod_add_self2)
    also have "\<dots> = ?d + MODULUS"
      using True assms(1-4) by (intro mod_pos_pos_trivial) (simp_all add: MODULUS_eq Field_ORDER_def)
    finally show ?thesis using True g by (simp add: Provable_if_def)
  next
    case False
    then show ?thesis using g pos by (simp add: Provable_if_def)
  qed
qed

lemma take_Suc_update:
  "n < length zs \<Longrightarrow> take (Suc n) (zs[n := v]) = take n zs @ [v]"
  by (simp add: take_Suc_conv_app_nth)

lemma add_chain:
  assumes "limbs_ok xs" "limbs_ok ys" "length zs = LIMB_NUM" "n \<le> LIMB_NUM"
  shows "\<exists>zs' c. fold (add_limb xs ys) [0..<n] (zs, False) = (zs', c)
     \<and> length zs' = LIMB_NUM \<and> list_all (\<lambda>x. 0 \<le> x \<and> x < MODULUS) (take n zs')
     \<and> limbs_val (take n zs') + (if c then MODULUS ^ n else 0)
          = limbs_val (take n xs) + limbs_val (take n ys)"
  using assms(4)
proof (induction n)
  case 0
  then show ?case using assms(3) by auto
next
  case (Suc n)
  then obtain zs' c where f: "fold (add_limb xs ys) [0..<n] (zs, False) = (zs', c)"
    and l: "length zs' = LIMB_NUM" and r: "list_all (\<lambda>x. 0 \<le> x \<and> x < MODULUS) (take n zs')"
    and v: "limbs_val (take n zs') + (if c then MODULUS ^ n else 0)
          = limbs_val (take n xs) + limbs_val (take n ys)"
    by auto
  have n: "n < length xs" "n < length ys" "n < length zs'"
    using Suc.prems assms(1,2) l by (simp_all add: limbs_ok_def)
  have x: "0 \<le> xs ! n" "xs ! n < MODULUS" and y: "0 \<le> ys ! n" "ys ! n < MODULUS"
    using assms(1,2) n by (simp_all add: limbs_ok_def list_all_length)
  let ?t = "xs ! n + ys ! n + (if c then 1 else 0)"
  let ?c' = "MODULUS \<le> ?t"
  let ?v = "?t - (if ?c' then MODULUS else 0)"
  have step: "fold (add_limb xs ys) [0..<Suc n] (zs, False) = (zs'[n := ?v], ?c')"
    using add_limb_step[OF x y, of c] by (simp add: f add_limb_def Let_def)
  have vr: "0 \<le> ?v" "?v < MODULUS" using x y by auto
  have tk: "take (Suc n) (zs'[n := ?v]) = take n zs' @ [?v]"
    by (rule take_Suc_update[OF n(3)])
  have ln: "length (take n zs') = n" using n by simp
  have val: "limbs_val (take (Suc n) (zs'[n := ?v])) + (if ?c' then MODULUS ^ Suc n else 0)
      = limbs_val (take (Suc n) xs) + limbs_val (take (Suc n) ys)"
    unfolding tk limbs_val_append ln limbs_val_take_Suc[OF n(1)] limbs_val_take_Suc[OF n(2)]
    using v by (cases c; cases ?c') (simp_all add: algebra_simps)
  have rng: "list_all (\<lambda>x. 0 \<le> x \<and> x < MODULUS) (take (Suc n) (zs'[n := ?v]))"
    unfolding tk using r vr by simp
  show ?case
    using step l val rng by (intro exI[of _ "zs'[n := ?v]"] exI[of _ ?c']) simp
qed

lemma sub_chain:
  assumes "limbs_ok xs" "limbs_ok ys" "length zs = LIMB_NUM" "n \<le> LIMB_NUM"
  shows "\<exists>zs' c. fold (sub_limb xs ys) [0..<n] (zs, False) = (zs', c)
     \<and> length zs' = LIMB_NUM \<and> list_all (\<lambda>x. 0 \<le> x \<and> x < MODULUS) (take n zs')
     \<and> limbs_val (take n zs') - (if c then MODULUS ^ n else 0)
          = limbs_val (take n xs) - limbs_val (take n ys)"
  using assms(4)
proof (induction n)
  case 0
  then show ?case using assms(3) by auto
next
  case (Suc n)
  then obtain zs' c where f: "fold (sub_limb xs ys) [0..<n] (zs, False) = (zs', c)"
    and l: "length zs' = LIMB_NUM" and r: "list_all (\<lambda>x. 0 \<le> x \<and> x < MODULUS) (take n zs')"
    and v: "limbs_val (take n zs') - (if c then MODULUS ^ n else 0)
          = limbs_val (take n xs) - limbs_val (take n ys)"
    by auto
  have n: "n < length xs" "n < length ys" "n < length zs'"
    using Suc.prems assms(1,2) l by (simp_all add: limbs_ok_def)
  have x: "0 \<le> xs ! n" "xs ! n < MODULUS" and y: "0 \<le> ys ! n" "ys ! n < MODULUS"
    using assms(1,2) n by (simp_all add: limbs_ok_def list_all_length)
  let ?t = "xs ! n - ys ! n - (if c then 1 else 0)"
  let ?c' = "?t < 0"
  let ?v = "?t + (if ?c' then MODULUS else 0)"
  have step: "fold (sub_limb xs ys) [0..<Suc n] (zs, False) = (zs'[n := ?v], ?c')"
    using sub_limb_step[OF x y, of c] by (simp add: f sub_limb_def Let_def)
  have vr: "0 \<le> ?v" "?v < MODULUS" using x y by auto
  have tk: "take (Suc n) (zs'[n := ?v]) = take n zs' @ [?v]"
    by (rule take_Suc_update[OF n(3)])
  have ln: "length (take n zs') = n" using n by simp
  have val: "limbs_val (take (Suc n) (zs'[n := ?v])) - (if ?c' then MODULUS ^ Suc n else 0)
      = limbs_val (take (Suc n) xs) - limbs_val (take (Suc n) ys)"
    unfolding tk limbs_val_append ln limbs_val_take_Suc[OF n(1)] limbs_val_take_Suc[OF n(2)]
    using v by (cases c; cases ?c') (simp_all add: algebra_simps)
  have rng: "list_all (\<lambda>x. 0 \<le> x \<and> x < MODULUS) (take (Suc n) (zs'[n := ?v]))"
    unfolding tk using r vr by simp
  show ?case
    using step l val rng by (intro exI[of _ "zs'[n := ?v]"] exI[of _ ?c']) simp
qed


lemma inrange_abs_big [simp]: "inrange (abs_big a) = inrange a"
  by (simp add: inrange_def abs_big_def)

lemma inrange_neg [simp]: "inrange (neg a) = inrange a"
  by (simp add: inrange_def neg_def)

lemma fields_abs_big [simp]: "fields' (abs_big a) = fields' a"
  by (simp add: abs_big_def)

lemma fields_neg [simp]: "fields' (neg a) = fields' a"
  by (simp add: neg_def)

lemma negative_neg [simp]: "negative (neg a) = (\<not> negative a)"
  by (simp add: neg_def)

lemma toBigInt_abs_big: "inrange a \<Longrightarrow> toBigInt (abs_big a) = limbs_val (fields' a)"
  by (simp add: toBigInt_inrange) (simp add: abs_big_def)

lemma toBigInt_neg: "inrange a \<Longrightarrow> toBigInt (neg a) = - toBigInt a"
  by (simp add: toBigInt_inrange)

lemma lessThan_abs:
  assumes "inrange a" "inrange b"
  shows "lessThan (abs_big a) (abs_big b) = Some (limbs_val (fields' a) < limbs_val (fields' b))"
  using assms
  by (simp add: lessThan_def cmp_eq toBigInt_abs_big Field_equals_def Ordering_val_inj compare3_def)

lemma limbs_eq_to_limbs:
  assumes "length zs = LIMB_NUM" "list_all (\<lambda>x. 0 \<le> x \<and> x < MODULUS) zs" "limbs_val zs = v"
  shows "zs = to_limbs LIMB_NUM v"
  using to_limbs_limbs_val[OF assms(2)] assms(1,3) by simp

lemma add_fold_full:
  assumes "limbs_ok xs" "limbs_ok ys"
  shows "fold (add_limb xs ys) [0..<LIMB_NUM] (Limbs_empty, False)
     = (if limbs_val xs + limbs_val ys < BOUND
        then (to_limbs LIMB_NUM (limbs_val xs + limbs_val ys), False)
        else (to_limbs LIMB_NUM (limbs_val xs + limbs_val ys - BOUND), True))"
proof -
  obtain zs c where f: "fold (add_limb xs ys) [0..<LIMB_NUM] (Limbs_empty, False) = (zs, c)"
    and l: "length zs = LIMB_NUM" and r: "list_all (\<lambda>x. 0 \<le> x \<and> x < MODULUS) (take LIMB_NUM zs)"
    and v: "limbs_val (take LIMB_NUM zs) + (if c then MODULUS ^ LIMB_NUM else 0)
          = limbs_val (take LIMB_NUM xs) + limbs_val (take LIMB_NUM ys)"
    using add_chain[OF assms, of Limbs_empty LIMB_NUM] by (auto simp add: Limbs_empty_def)
  have r': "list_all (\<lambda>x. 0 \<le> x \<and> x < MODULUS) zs" using r l by simp
  have v': "limbs_val zs + (if c then BOUND else 0) = limbs_val xs + limbs_val ys"
    using v l assms by (cases c) (simp_all add: limbs_ok_def BOUND_eq)
  have b: "0 \<le> limbs_val zs" "limbs_val zs < BOUND"
    using limbs_val_bounds[OF r'] l by (simp_all add: BOUND_eq)
  have bx: "limbs_val xs < BOUND" "limbs_val ys < BOUND"
    using limbs_val_bounds[of xs] limbs_val_bounds[of ys] assms
    by (simp_all add: limbs_ok_def BOUND_eq)
  have c: "c \<longleftrightarrow> \<not> limbs_val xs + limbs_val ys < BOUND"
    using v' b bx by (cases c) simp_all
  have "zs = to_limbs LIMB_NUM (limbs_val xs + limbs_val ys - (if c then BOUND else 0))"
    using v' by (intro limbs_eq_to_limbs[OF l r']) (cases c; simp)
  then show ?thesis using f c by simp
qed

lemma sub_fold_full:
  assumes "limbs_ok xs" "limbs_ok ys" "limbs_val ys \<le> limbs_val xs"
  shows "fold (sub_limb xs ys) [0..<LIMB_NUM] (Limbs_empty, False)
     = (to_limbs LIMB_NUM (limbs_val xs - limbs_val ys), False)"
proof -
  obtain zs c where f: "fold (sub_limb xs ys) [0..<LIMB_NUM] (Limbs_empty, False) = (zs, c)"
    and l: "length zs = LIMB_NUM" and r: "list_all (\<lambda>x. 0 \<le> x \<and> x < MODULUS) (take LIMB_NUM zs)"
    and v: "limbs_val (take LIMB_NUM zs) - (if c then MODULUS ^ LIMB_NUM else 0)
          = limbs_val (take LIMB_NUM xs) - limbs_val (take LIMB_NUM ys)"
    using sub_chain[OF assms(1,2), of Limbs_empty LIMB_NUM] by (auto simp add: Limbs_empty_def)
  have r': "list_all (\<lambda>x. 0 \<le> x \<and> x < MODULUS) zs" using r l by simp
  have v': "limbs_val zs - (if c then BOUND else 0) = limbs_val xs - limbs_val ys"
    using v l assms by (cases c) (simp_all add: limbs_ok_def BOUND_eq)
  have b: "0 \<le> limbs_val zs" "limbs_val zs < BOUND"
    using limbs_val_bounds[OF r'] l by (simp_all add: BOUND_eq)
  have c: "\<not> c"
    using v' b assms(3) by (cases c) simp_all
  have "zs = to_limbs LIMB_NUM (limbs_val xs - limbs_val ys)"
    using v' c by (intro limbs_eq_to_limbs[OF l r']) simp
  then show ?thesis using f c by simp
qed

lemma add_eq:
  assumes "inrange a" "inrange b"
  defines "A \<equiv> limbs_val (fields' a)" and "B \<equiv> limbs_val (fields' b)"
  shows "add a b =
     (if A + B < BOUND
      then Some \<lparr>negative = (if negative a \<noteq> negative b then negative b = (A < B) else negative a),
                 fields' = to_limbs LIMB_NUM (if negative a \<noteq> negative b then \<bar>A - B\<bar> else A + B)\<rparr>
      else None)"
proof -
  have oa: "limbs_ok (fields' a)" and ob: "limbs_ok (fields' b)"
    using assms by (simp_all add: inrange_def)
  have lt: "lessThan (abs_big a) (abs_big b) = Some (A < B)"
    unfolding A_def B_def by (rule lessThan_abs[OF assms(1,2)])
  have af: "fold (add_limb (fields' a) (fields' b)) [0..<LIMB_NUM] (Limbs_empty, False)
     = (if A + B < BOUND then (to_limbs LIMB_NUM (A + B), False)
        else (to_limbs LIMB_NUM (A + B - BOUND), True))"
    unfolding A_def B_def by (rule add_fold_full[OF oa ob])
  have sf1: "A < B \<Longrightarrow> fold (sub_limb (fields' b) (fields' a)) [0..<LIMB_NUM] (Limbs_empty, False)
     = (to_limbs LIMB_NUM \<bar>A - B\<bar>, False)"
    using sub_fold_full[OF ob oa] by (simp add: A_def B_def)
  have sf2: "\<not> A < B \<Longrightarrow> fold (sub_limb (fields' a) (fields' b)) [0..<LIMB_NUM] (Limbs_empty, False)
     = (to_limbs LIMB_NUM \<bar>A - B\<bar>, False)"
    using sub_fold_full[OF oa ob] by (simp add: A_def B_def)
  show ?thesis
  proof (cases "A < B")
    case True
    show ?thesis
      unfolding add_def lt
      by (simp add: Provable_if_def af sf1[OF True] True assertFalse_def)
  next
    case False
    show ?thesis
      unfolding add_def lt
      by (simp add: Provable_if_def af sf2[OF False] False assertFalse_def)
  qed
qed

lemma add_Some_iff:
  assumes "inrange a" "inrange b"
  shows "(\<exists>c. add a b = Some c) \<longleftrightarrow> \<bar>toBigInt a\<bar> + \<bar>toBigInt b\<bar> < BOUND"
  by (simp add: add_eq[OF assms] abs_toBigInt[OF assms(1)] abs_toBigInt[OF assms(2)])

lemma add_value:
  assumes "inrange a" "inrange b" "add a b = Some c"
  shows "inrange c \<and> toBigInt c = toBigInt a + toBigInt b"
proof -
  define A where "A = limbs_val (fields' a)"
  define B where "B = limbs_val (fields' b)"
  define m where "m = (if negative a \<noteq> negative b then \<bar>A - B\<bar> else A + B)"
  define n where "n = (if negative a \<noteq> negative b then negative b = (A < B) else negative a)"
  have e: "add a b = (if A + B < BOUND then Some \<lparr>negative = n, fields' = to_limbs LIMB_NUM m\<rparr> else None)"
    unfolding add_eq[OF assms(1,2)] A_def B_def m_def n_def ..
  have lt: "A + B < BOUND" and c: "c = \<lparr>negative = n, fields' = to_limbs LIMB_NUM m\<rparr>"
    using assms(3) unfolding e by (simp_all split: if_splits)
  have nn: "0 \<le> A" "0 \<le> B" using limbs_val_nonneg assms by (simp_all add: A_def B_def)
  have m: "0 \<le> m" "m < BOUND" using nn lt by (auto simp add: m_def)
  have rc: "inrange c" unfolding c by (rule inrange_from)
  have "limbs_val (to_limbs LIMB_NUM m) = m"
    using m unfolding limbs_val_to_limbs BOUND_eq by simp
  then have "toBigInt c = (if n then - m else m)"
    unfolding toBigInt_inrange[OF rc] by (simp add: c)
  also have "\<dots> = (if negative a then - A else A) + (if negative b then - B else B)"
    using nn unfolding m_def n_def by (cases "negative a"; cases "negative b"; cases "A < B") simp_all
  also have "\<dots> = toBigInt a + toBigInt b"
    by (simp only: toBigInt_inrange[OF assms(1)] toBigInt_inrange[OF assms(2)] A_def B_def)
  finally show ?thesis using rc by simp
qed

lemma add_total:
  assumes "inrange a" "inrange b" "\<bar>toBigInt a\<bar> + \<bar>toBigInt b\<bar> < BOUND"
  shows "\<exists>c. add a b = Some c \<and> inrange c \<and> toBigInt c = toBigInt a + toBigInt b"
  using add_Some_iff[OF assms(1,2)] assms(3) add_value[OF assms(1,2)] by auto


lemma Bigint2048_from_Some:
  "\<bar>x\<bar> < BOUND \<Longrightarrow> Bigint2048_from x = Some \<lparr>negative = x < 0, fields' = to_limbs LIMB_NUM \<bar>x\<bar>\<rparr>"
  by (simp add: Bigint2048_from_eq)

lemma from_props:
  assumes "\<bar>x\<bar> < BOUND"
  shows "inrange (the (Bigint2048_from x))" "toBigInt (the (Bigint2048_from x)) = x"
    "negative (the (Bigint2048_from x)) = (x < 0)"
  using assms inrange_from toBigInt_from[OF assms] by (simp_all add: Bigint2048_from_Some)

lemma MAX_props:
  "inrange Bigint2048_MAX" "toBigInt Bigint2048_MAX = BOUND - 1" "\<not> negative Bigint2048_MAX"
proof -
  have e: "push_bit (LIMB_BITS * LIMB_NUM) 1 - 1 = BOUND - 1"
    by (simp add: BOUND_def LIMB_BITS_def LIMB_NUM_def)
  have b: "\<bar>BOUND - 1\<bar> < BOUND" by (simp add: BOUND_def)
  show "inrange Bigint2048_MAX" "toBigInt Bigint2048_MAX = BOUND - 1" "\<not> negative Bigint2048_MAX"
    unfolding Bigint2048_MAX_def e using from_props[OF b] by (simp_all add: BOUND_def)
qed

lemma ZERO_props:
  "inrange Bigint2048_ZERO" "toBigInt Bigint2048_ZERO = 0" "\<not> negative Bigint2048_ZERO"
  unfolding Bigint2048_ZERO_def using from_props[of 0] by (simp_all add: BOUND_def)

lemma ONE_props:
  "inrange Bigint2048_ONE" "toBigInt Bigint2048_ONE = 1" "\<not> negative Bigint2048_ONE"
  unfolding Bigint2048_ONE_def using from_props[of 1] by (simp_all add: BOUND_def)


text \<open>
  C5, as the code has it: \<open>add\<close> checks the final carry of the magnitude sum whatever
  the signs are, so on values with limbs in range it succeeds exactly when
  \<open>|a| + |b| < 2^2088\<close>, and then it returns \<open>a + b\<close>; the final carry of the magnitude
  difference is never set. Whenever \<open>a.add(b)\<close> and the \<open>sub(b)\<close> after it both succeed,
  as they do for \<open>|a| + 2|b| < 2^2088\<close>, the result equals \<open>a\<close>; and \<open>a.add(a.neg())\<close>
  equals zero for \<open>|a| < 2^2087\<close>.
\<close>

theorem add_sub_inverse:
  "inrange a \<Longrightarrow> inrange b \<Longrightarrow>
     ((\<exists>c. add a b = Some c) \<longleftrightarrow> \<bar>toBigInt a\<bar> + \<bar>toBigInt b\<bar> < 2 ^ 2088)
     \<and> (\<forall>c. add a b = Some c \<longrightarrow> inrange c \<and> toBigInt c = toBigInt a + toBigInt b)
     \<and> (\<forall>c d. add a b = Some c \<longrightarrow> sub c b = Some d \<longrightarrow> equals d a)
     \<and> (\<bar>toBigInt a\<bar> + 2 * \<bar>toBigInt b\<bar> < 2 ^ 2088 \<longrightarrow>
           (\<exists>c d. add a b = Some c \<and> sub c b = Some d \<and> equals d a))
     \<and> (2 * \<bar>toBigInt a\<bar> < 2 ^ 2088 \<longrightarrow>
           (\<exists>z. add a (neg a) = Some z \<and> equals z Bigint2048_ZERO))"
proof -
  assume a: "inrange a" and b: "inrange b"
  have nb: "inrange (neg b)" and na: "inrange (neg a)" using a b by simp_all
  have inv: "equals d a" if c: "add a b = Some c" and d: "sub c b = Some d" for c d
  proof -
    have rc: "inrange c" and vc: "toBigInt c = toBigInt a + toBigInt b"
      using add_value[OF a b c] by simp_all
    have "inrange d \<and> toBigInt d = toBigInt c + toBigInt (neg b)"
      using add_value[OF rc nb] d by (simp add: sub_def)
    then show ?thesis using vc a b by (simp add: equals_iff toBigInt_neg)
  qed
  have tot: "\<exists>c d. add a b = Some c \<and> sub c b = Some d \<and> equals d a"
    if h: "\<bar>toBigInt a\<bar> + 2 * \<bar>toBigInt b\<bar> < BOUND"
  proof -
    have "\<bar>toBigInt a\<bar> + \<bar>toBigInt b\<bar> < BOUND" using h by simp
    then obtain c where c: "add a b = Some c" and rc: "inrange c"
      and vc: "toBigInt c = toBigInt a + toBigInt b"
      using add_total[OF a b] by blast
    have "\<bar>toBigInt c\<bar> + \<bar>toBigInt (neg b)\<bar> < BOUND"
      using h vc b by (simp add: toBigInt_neg)
    then obtain d where d: "sub c b = Some d"
      using add_total[OF rc nb] by (auto simp add: sub_def)
    show ?thesis using c d inv by blast
  qed
  have zero: "\<exists>z. add a (neg a) = Some z \<and> equals z Bigint2048_ZERO"
    if h: "2 * \<bar>toBigInt a\<bar> < BOUND"
  proof -
    have "\<bar>toBigInt a\<bar> + \<bar>toBigInt (neg a)\<bar> < BOUND"
      using h a by (simp add: toBigInt_neg)
    then obtain z where z: "add a (neg a) = Some z" and rz: "inrange z"
      and vz: "toBigInt z = toBigInt a + toBigInt (neg a)"
      using add_total[OF a na] by blast
    then show ?thesis using a by (simp add: equals_iff ZERO_props toBigInt_neg)
  qed
  show ?thesis
    unfolding BOUND_def[symmetric]
    using add_Some_iff[OF a b] add_value[OF a b] inv tot zero by blast
qed


theorem add_sub_inverse_witness:
  "inrange Bigint2048_ONE \<and> inrange Bigint2048_MAX
   \<and> (\<nexists>c. add Bigint2048_ONE Bigint2048_MAX = Some c)
   \<and> (\<exists>z. add Bigint2048_ONE (neg Bigint2048_ONE) = Some z \<and> equals z Bigint2048_ZERO)
   \<and> (\<exists>c d. add Bigint2048_ONE Bigint2048_ONE = Some c \<and> sub c Bigint2048_ONE = Some d
         \<and> equals d Bigint2048_ONE)"
proof -
  note m = add_sub_inverse[OF ONE_props(1) MAX_props(1)]
  note o = add_sub_inverse[OF ONE_props(1) ONE_props(1)]
  have "\<not> \<bar>toBigInt Bigint2048_ONE\<bar> + \<bar>toBigInt Bigint2048_MAX\<bar> < 2 ^ 2088"
    by (simp add: ONE_props MAX_props BOUND_def)
  then have 1: "\<nexists>c. add Bigint2048_ONE Bigint2048_MAX = Some c"
    using m[THEN conjunct1] by simp
  have "2 * \<bar>toBigInt Bigint2048_ONE\<bar> < 2 ^ 2088"
    by (simp add: ONE_props)
  then have 2: "\<exists>z. add Bigint2048_ONE (neg Bigint2048_ONE) = Some z \<and> equals z Bigint2048_ZERO"
    using o[THEN conjunct2, THEN conjunct2, THEN conjunct2, THEN conjunct2] by blast
  have "\<bar>toBigInt Bigint2048_ONE\<bar> + 2 * \<bar>toBigInt Bigint2048_ONE\<bar> < 2 ^ 2088"
    by (simp add: ONE_props)
  then have 3: "\<exists>c d. add Bigint2048_ONE Bigint2048_ONE = Some c \<and> sub c Bigint2048_ONE = Some d
         \<and> equals d Bigint2048_ONE"
    using o[THEN conjunct2, THEN conjunct2, THEN conjunct2, THEN conjunct1] by blast
  show ?thesis using 1 2 3 ONE_props(1) MAX_props(1) by blast
qed

theorem add_neg_MAX_fails:
  "inrange Bigint2048_MAX \<and> \<bar>toBigInt Bigint2048_MAX\<bar> < 2 ^ 2088
   \<and> add Bigint2048_MAX (neg Bigint2048_MAX) = None"
proof -
  have n: "inrange (neg Bigint2048_MAX)" using MAX_props(1) by simp
  have "\<not> \<bar>toBigInt Bigint2048_MAX\<bar> + \<bar>toBigInt (neg Bigint2048_MAX)\<bar> < BOUND"
    by (simp add: toBigInt_neg MAX_props BOUND_def)
  then have "\<not> (\<exists>c. add Bigint2048_MAX (neg Bigint2048_MAX) = Some c)"
    unfolding add_Some_iff[OF MAX_props(1) n] .
  then have "add Bigint2048_MAX (neg Bigint2048_MAX) = None" by simp
  moreover have "\<bar>toBigInt Bigint2048_MAX\<bar> < 2 ^ 2088"
    by (simp add: MAX_props BOUND_def)
  ultimately show ?thesis using MAX_props(1) by blast
qed


section \<open>Witnessed modular multiplication\<close>

subsection \<open>Field division and the signed range check\<close>

declare Field_egcd.simps [simp del]

lemma Field_egcd_bezout:
  "Field_egcd a b = (g, s, t) \<Longrightarrow> s * a + t * b = g"
proof (induction a b arbitrary: g s t rule: Field_egcd.induct)
  case (1 a b)
  show ?case
  proof (cases "b \<le> 0")
    case True
    then show ?thesis using "1.prems" by (subst (asm) Field_egcd.simps) simp
  next
    case False
    obtain g' s' t' where r: "Field_egcd b (a mod b) = (g', s', t')"
      by (cases "Field_egcd b (a mod b)") auto
    have e: "g = g'" "s = t'" "t = s' - (a div b) * t'"
      using "1.prems" False r by (subst (asm) Field_egcd.simps, simp)+
    have "s' * b + t' * (a mod b) = g'"
      using "1.IH"[OF False r] .
    moreover have "a mod b = a - (a div b) * b"
      by (simp add: minus_div_mult_eq_mod)
    ultimately show ?thesis unfolding e by (simp add: algebra_simps)
  qed
qed

lemma Field_egcd_gcd:
  "0 \<le> a \<Longrightarrow> 0 \<le> b \<Longrightarrow> fst (Field_egcd a b) = gcd a b"
proof (induction a b rule: Field_egcd.induct)
  case (1 a b)
  show ?case
  proof (cases "b \<le> 0")
    case True
    then have "b = 0" using "1.prems" by simp
    then show ?thesis using "1.prems" by (subst Field_egcd.simps) simp
  next
    case False
    then have b: "0 < b" by simp
    have "fst (Field_egcd b (a mod b)) = gcd b (a mod b)"
      using "1.IH"[OF False] b by simp
    moreover have "fst (Field_egcd a b) = fst (Field_egcd b (a mod b))"
      using False by (subst Field_egcd.simps) (simp split: prod.splits)
    moreover have "gcd b (a mod b) = gcd a b"
      by (metis gcd.commute gcd_red_int)
    ultimately show ?thesis by simp
  qed
qed

lemma coprime_ORDER_MODULUS: "gcd Field_ORDER (2 ^ 116) = 1"
proof -
  have "odd Field_ORDER" by (simp add: Field_ORDER_def)
  then have "coprime Field_ORDER 2" by (simp add: coprime_right_2_iff_odd)
  then have "coprime Field_ORDER (2 ^ 116)" by (rule coprime_power_right_iff[THEN iffD2, OF disjI1])
  then show ?thesis by (simp add: coprime_iff_gcd_eq_1)
qed

lemma Field_inv_MODULUS:
  "\<exists>i. Field_inv (2 ^ 116) = Some i \<and> (i * 2 ^ 116) mod Field_ORDER = 1"
proof -
  obtain g s t where e: "Field_egcd Field_ORDER (2 ^ 116) = (g, s, t)"
    by (cases "Field_egcd Field_ORDER (2 ^ 116)") auto
  have "g = gcd Field_ORDER (2 ^ 116)"
    using Field_egcd_gcd[of Field_ORDER "2 ^ 116"] e by (simp add: Field_ORDER_def)
  then have g: "g = 1" by (simp only: coprime_ORDER_MODULUS)
  have b: "s * Field_ORDER + t * 2 ^ 116 = 1"
    using Field_egcd_bezout[OF e] g by simp
  have "(t mod Field_ORDER * 2 ^ 116) mod Field_ORDER = (t * 2 ^ 116) mod Field_ORDER"
    by (simp add: mod_simps)
  also have "\<dots> = (t * 2 ^ 116 + s * Field_ORDER) mod Field_ORDER"
    by simp
  also have "\<dots> = 1 mod Field_ORDER"
    using b by (simp only: add.commute)
  also have "\<dots> = 1"
    by (simp add: Field_ORDER_def)
  finally have "(t mod Field_ORDER * 2 ^ 116) mod Field_ORDER = 1" .
  then show ?thesis
    unfolding Field_inv_def e using g by simp
qed

lemma Field_div_exact:
  "Field_div ((c * MODULUS) mod Field_ORDER) (push_bit LIMB_BITS 1) = Some (c mod Field_ORDER)"
proof -
  obtain i where i: "Field_inv (2 ^ 116) = Some i" and m: "(i * 2 ^ 116) mod Field_ORDER = 1"
    using Field_inv_MODULUS by blast
  have p: "push_bit LIMB_BITS 1 = (2 ^ 116 :: int)"
    by (simp add: LIMB_BITS_def)
  have "Field_mul ((c * MODULUS) mod Field_ORDER) i = (c * (i * 2 ^ 116)) mod Field_ORDER"
    by (simp add: Field_mul_def MODULUS_eq mod_simps algebra_simps del: power_numeral)
  also have "\<dots> = (c * ((i * 2 ^ 116) mod Field_ORDER)) mod Field_ORDER"
    by (simp only: mod_mult_right_eq)
  also have "\<dots> = c mod Field_ORDER"
    by (simp only: m mult_1_right)
  finally show ?thesis
    unfolding Field_div_def p i by simp
qed

lemma int_div_less:
  fixes a b x :: int
  assumes "0 < b" "x < a * b"
  shows "x div b < a"
proof (rule ccontr)
  assume "\<not> x div b < a"
  then have "a \<le> x div b" by simp
  then have "a * b \<le> x div b * b" using assms(1) by (simp add: mult_right_mono)
  moreover have "x div b * b + x mod b = x" by simp
  moreover have "0 \<le> x mod b" using assms(1) by simp
  ultimately show False using assms(2) by linarith
qed

lemma int_div_mult_le:
  fixes b x :: int
  assumes "0 < b"
  shows "x div b * b \<le> x"
proof -
  have "x div b * b + x mod b = x" by simp
  moreover have "0 \<le> x mod b" using assms by simp
  ultimately show ?thesis by linarith
qed

lemma mod_ORDER_small: "0 \<le> x \<Longrightarrow> x < 2 ^ 128 \<Longrightarrow> x mod Field_ORDER = x"
  by (simp add: Field_ORDER_def)

lemma rangeCheck128Signed_ok:
  assumes "- (2 ^ 127) \<le> c" "c < 2 ^ 127"
  shows "rangeCheck128Signed (c mod Field_ORDER) = Some ()"
proof -
  define x where "x = c + 2 ^ 127"
  have x: "0 \<le> x" "x < 2 ^ 128" using assms by (simp_all add: x_def)
  have fx: "Field_add (c mod Field_ORDER) (push_bit 127 1) = x"
    unfolding Field_add_def x_def[symmetric] push_bit_of_1 mod_add_left_eq x_def[symmetric]
    using x by (rule mod_ORDER_small)
  have x0: "0 \<le> x mod 2 ^ 64" "x mod 2 ^ 64 < 2 ^ 64" by simp_all
  have x1: "0 \<le> x div 2 ^ 64" "x div 2 ^ 64 < 2 ^ 64"
  proof -
    show "0 \<le> x div 2 ^ 64" using x by (simp add: pos_imp_zdiv_nonneg_iff)
    show "x div 2 ^ 64 < 2 ^ 64" using x by (intro int_div_less) simp_all
  qed
  have f0: "Field_from (x mod 2 ^ 64) = x mod 2 ^ 64"
    unfolding Field_from_def using x0 by (intro mod_ORDER_small) simp_all
  have f1: "Field_from (drop_bit 64 x) = x div 2 ^ 64"
    unfolding Field_from_def drop_bit_eq_div using x1 by (intro mod_ORDER_small) simp_all
  have m: "Field_mul (x div 2 ^ 64) (push_bit 64 1) = x div 2 ^ 64 * 2 ^ 64"
  proof -
    have "x div 2 ^ 64 * 2 ^ 64 \<le> x" by (rule int_div_mult_le) simp
    then have "x div 2 ^ 64 * 2 ^ 64 < 2 ^ 128" using x by linarith
    moreover have "0 \<le> x div 2 ^ 64 * 2 ^ 64" using x1 by simp
    ultimately show ?thesis
      unfolding Field_mul_def push_bit_of_1 by (intro mod_ORDER_small)
  qed
  have a: "Field_add (x mod 2 ^ 64) (x div 2 ^ 64 * 2 ^ 64) = x"
  proof -
    have "x mod 2 ^ 64 + x div 2 ^ 64 * 2 ^ 64 = x" by (simp add: mod_div_mult_eq)
    then show ?thesis unfolding Field_add_def using x by (simp only: mod_ORDER_small)
  qed
  have r0: "rangeCheck64 (x mod 2 ^ 64) \<noteq> None" and r1: "rangeCheck64 (x div 2 ^ 64) \<noteq> None"
    using x0 x1 by (simp_all add: rangeCheck64_def)
  show ?thesis
    unfolding rangeCheck128Signed_def Let_def fx and_low_bits f0 f1 m a
    using r0 r1 by (auto simp add: assertTrue_def Field_equals_def)
qed

lemma forM_append:
  "forM (xs @ ys) body s = (case forM xs body s of None \<Rightarrow> None | Some s' \<Rightarrow> forM ys body s')"
  by (induction xs arbitrary: s) (auto split: option.splits)


subsection \<open>The difference polynomial\<close>

lemma fold_related:
  assumes "\<And>i s t. i \<in> set is \<Longrightarrow> R s t \<Longrightarrow> R (f i s) (g i t)" "R s t"
  shows "R (fold f is s) (fold g is t)"
  using assms by (induction "is" arbitrary: s t) simp_all

lemma update_mod_related:
  assumes "\<And>v. h (v mod Field_ORDER) = u v mod Field_ORDER"
  shows "(map (\<lambda>v. v mod Field_ORDER) D)[k := h ((map (\<lambda>v. v mod Field_ORDER) D) ! k)]
       = map (\<lambda>v. v mod Field_ORDER) (D[k := u (D ! k)])"
proof (cases "k < length D")
  case True
  then show ?thesis by (simp add: map_update assms)
next
  case False
  then show ?thesis by (simp add: list_update_beyond)
qed

lemma multiply_delta_mod:
  "multiply_delta False X Y Q R P = map (\<lambda>v. v mod Field_ORDER) (delta_int X Y Q R P)"
proof -
  let ?m = "map (\<lambda>v::int. v mod Field_ORDER)"
  let ?R = "\<lambda>d D. d = ?m D"
  have add: "d[k := Field_add (d ! k) (Field_mul x y)] = ?m (D[k := D ! k + x * y])"
    if "d = ?m D" for d D k x y
    unfolding that
    by (rule update_mod_related[where u = "\<lambda>v. v + x * y"])
       (simp add: Field_add_def Field_mul_def mod_simps)
  have sub: "d[k := Field_sub (d ! k) (Field_mul x y)] = ?m (D[k := D ! k - x * y])"
    if "d = ?m D" for d D k x y
    unfolding that
    by (rule update_mod_related[where u = "\<lambda>v. v - x * y"])
       (simp add: Field_sub_def Field_mul_def mod_simps)
  have subr: "d[k := Field_sub (d ! k) r] = ?m (D[k := D ! k - r])"
    if "d = ?m D" for d D k r
    unfolding that
    by (rule update_mod_related[where u = "\<lambda>v. v - r"])
       (simp add: Field_sub_def mod_simps)
  have z: "replicate (2 * LIMB_NUM - 1) 0 = ?m (replicate (2 * LIMB_NUM - 1) 0)"
    by simp
  show ?thesis
    unfolding multiply_delta_def delta_int_def if_False Let_def
    by (rule fold_related[where R = ?R, OF _ z])
       (intro subr fold_related[where R = ?R] sub add)
qed

lemma limbs_val_update:
  "k < length D \<Longrightarrow> limbs_val (D[k := D ! k + v]) = limbs_val D + MODULUS ^ k * v"
proof (induction D arbitrary: k)
  case Nil
  then show ?case by simp
next
  case (Cons x D)
  then show ?case by (cases k) (simp_all add: algebra_simps)
qed

lemma inner_fold_length [simp]:
  "length (fold (\<lambda>j d. d[i + j := u j d]) js D) = length D"
  by (induction js arbitrary: D) simp_all

lemma inner_fold_val:
  fixes D :: "int list"
  shows "i + m \<le> length D \<Longrightarrow>
   limbs_val (fold (\<lambda>j d. d[i + j := d ! (i + j) + g j]) [0..<m] D)
     = limbs_val D + MODULUS ^ i * limbs_val (map g [0..<m])"
proof (induction m)
  case 0
  then show ?case by simp
next
  case (Suc m)
  let ?F = "fold (\<lambda>j d. d[i + j := d ! (i + j) + g j]) [0..<m] D"
  have l: "i + m < length ?F"
    using Suc.prems by simp
  have ih: "limbs_val ?F = limbs_val D + MODULUS ^ i * limbs_val (map g [0..<m])"
    using Suc.prems by (intro Suc.IH) simp
  have "fold (\<lambda>j d. d[i + j := d ! (i + j) + g j]) [0..<Suc m] D = ?F[i + m := ?F ! (i + m) + g m]"
    by simp
  also have "limbs_val \<dots> = limbs_val ?F + MODULUS ^ (i + m) * g m"
    by (rule limbs_val_update[OF l])
  also have "\<dots> = limbs_val D + MODULUS ^ i * limbs_val (map g [0..<Suc m])"
    unfolding ih by (simp add: limbs_val_append power_add algebra_simps)
  finally show ?case .
qed

lemma inner_fold_nth:
  fixes D :: "int list"
  shows "i + m \<le> length D \<Longrightarrow> k < length D \<Longrightarrow>
   fold (\<lambda>j d. d[i + j := d ! (i + j) + g j]) [0..<m] D ! k
     = D ! k + (if i \<le> k \<and> k < i + m then g (k - i) else 0)"
proof (induction m)
  case 0
  then show ?case by simp
next
  case (Suc m)
  then show ?case by (auto simp add: nth_list_update)
qed

lemma limbs_val_map_scale:
  "m \<le> length Y \<Longrightarrow> limbs_val (map (\<lambda>j. c * Y ! j) [0..<m]) = c * limbs_val (take m Y)"
proof (induction m)
  case 0
  then show ?case by simp
next
  case (Suc m)
  then show ?case
    by (simp add: limbs_val_append take_Suc_conv_app_nth algebra_simps)
qed

lemma limbs_val_map_scale_neg:
  "m \<le> length Y \<Longrightarrow> limbs_val (map (\<lambda>j. - (c * Y ! j)) [0..<m]) = - (c * limbs_val (take m Y))"
  using limbs_val_map_scale[of m Y "- c"] by simp

text \<open>One pass of the outer loop of \<open>delta_int\<close>.\<close>

lemma delta_row_val:
  assumes "length X = LIMB_NUM" "length Y = LIMB_NUM" "length Q = LIMB_NUM"
    "length R = LIMB_NUM" "length P = LIMB_NUM" "length D = 2 * LIMB_NUM - 1" "i < LIMB_NUM"
  defines "D1 \<equiv> fold (\<lambda>j d. d[i + j := d ! (i + j) + X ! i * Y ! j]) [0..<LIMB_NUM] D"
  defines "D2 \<equiv> fold (\<lambda>j d. d[i + j := d ! (i + j) - Q ! i * P ! j]) [0..<LIMB_NUM] D1"
  shows "limbs_val (D2[i := D2 ! i - R ! i])
     = limbs_val D + MODULUS ^ i * (X ! i * limbs_val Y - Q ! i * limbs_val P - R ! i)"
    and "length (D2[i := D2 ! i - R ! i]) = 2 * LIMB_NUM - 1"
    and "\<And>k. k < 2 * LIMB_NUM - 1 \<Longrightarrow> (D2[i := D2 ! i - R ! i]) ! k
          = D ! k + (if i \<le> k \<and> k < i + LIMB_NUM then X ! i * Y ! (k - i) - Q ! i * P ! (k - i) else 0)
                  - (if k = i then R ! i else 0)"
proof -
  have b: "i + LIMB_NUM \<le> length D" using assms(6,7) by simp
  have l1: "length D1 = length D" unfolding D1_def by simp
  have l2: "length D2 = length D" unfolding D2_def using l1 by simp
  have v1: "limbs_val D1 = limbs_val D + MODULUS ^ i * (X ! i * limbs_val Y)"
    unfolding D1_def inner_fold_val[OF b]
    using limbs_val_map_scale[of LIMB_NUM Y "X ! i"] assms(2) by simp
  have e2: "D2 = fold (\<lambda>j d. d[i + j := d ! (i + j) + - (Q ! i * P ! j)]) [0..<LIMB_NUM] D1"
    unfolding D2_def by simp
  have v2: "limbs_val D2 = limbs_val D1 + MODULUS ^ i * (- (Q ! i * limbs_val P))"
    unfolding e2 inner_fold_val[OF b[folded l1]]
    using limbs_val_map_scale_neg[of LIMB_NUM P "Q ! i"] assms(5) by simp
  have i: "i < length D2" using l2 assms(6,7) by simp
  have "limbs_val (D2[i := D2 ! i + - R ! i]) = limbs_val D2 + MODULUS ^ i * (- R ! i)"
    by (rule limbs_val_update[OF i])
  then show "limbs_val (D2[i := D2 ! i - R ! i])
     = limbs_val D + MODULUS ^ i * (X ! i * limbs_val Y - Q ! i * limbs_val P - R ! i)"
    using v1 v2 by (simp add: algebra_simps)
  show "length (D2[i := D2 ! i - R ! i]) = 2 * LIMB_NUM - 1"
    using l2 assms(6) by simp
  fix k assume k: "k < 2 * LIMB_NUM - 1"
  then have kD: "k < length D" "k < length D1" "k < length D2" using assms(6) l1 l2 by simp_all
  have n1: "D1 ! k = D ! k + (if i \<le> k \<and> k < i + LIMB_NUM then X ! i * Y ! (k - i) else 0)"
    unfolding D1_def by (rule inner_fold_nth[OF b kD(1)])
  have n2: "D2 ! k = D1 ! k + (if i \<le> k \<and> k < i + LIMB_NUM then - (Q ! i * P ! (k - i)) else 0)"
    unfolding e2 by (rule inner_fold_nth[OF b[folded l1] kD(2)])
  show "(D2[i := D2 ! i - R ! i]) ! k
          = D ! k + (if i \<le> k \<and> k < i + LIMB_NUM then X ! i * Y ! (k - i) - Q ! i * P ! (k - i) else 0)
                  - (if k = i then R ! i else 0)"
    using kD i n1 n2 by (simp add: nth_list_update)
qed


lemma limb_product_bounds:
  fixes x y :: int
  assumes "0 \<le> x" "x < MODULUS" "0 \<le> y" "y < MODULUS"
  shows "0 \<le> x * y" "x * y \<le> (MODULUS - 1) * (MODULUS - 1)"
proof -
  show "0 \<le> x * y" using assms by simp
  have "x \<le> MODULUS - 1" "y \<le> MODULUS - 1" using assms by simp_all
  then show "x * y \<le> (MODULUS - 1) * (MODULUS - 1)"
    using assms by (intro mult_mono) simp_all
qed

lemma limbs_ok_nth:
  "limbs_ok X \<Longrightarrow> i < LIMB_NUM \<Longrightarrow> 0 \<le> X ! i \<and> X ! i < MODULUS"
  by (simp add: limbs_ok_def list_all_length)

lemma delta_int_props:
  assumes "limbs_ok X" "limbs_ok Y" "limbs_ok Q" "limbs_ok R" "limbs_ok P"
  shows "length (delta_int X Y Q R P) = 2 * LIMB_NUM - 1"
    and "limbs_val (delta_int X Y Q R P) = limbs_val X * limbs_val Y - limbs_val Q * limbs_val P - limbs_val R"
    and "\<And>k. k < 2 * LIMB_NUM - 1 \<Longrightarrow> \<bar>delta_int X Y Q R P ! k\<bar> \<le> int LIMB_NUM * (MODULUS * MODULUS)"
proof -
  define row where "row = (\<lambda>i (D :: int list).
     (let D1 = fold (\<lambda>j d. d[i + j := d ! (i + j) + X ! i * Y ! j]) [0..<LIMB_NUM] D;
          D2 = fold (\<lambda>j d. d[i + j := d ! (i + j) - Q ! i * P ! j]) [0..<LIMB_NUM] D1
      in D2[i := D2 ! i - R ! i]))"
  define F where "F = (\<lambda>m. fold row [0..<m] (replicate (2 * LIMB_NUM - 1) 0))"
  have len: "length X = LIMB_NUM" "length Y = LIMB_NUM" "length Q = LIMB_NUM"
    "length R = LIMB_NUM" "length P = LIMB_NUM"
    using assms by (simp_all add: limbs_ok_def)
  have e: "delta_int X Y Q R P = F LIMB_NUM"
    unfolding delta_int_def F_def row_def ..
  have inv: "length (F m) = 2 * LIMB_NUM - 1
      \<and> limbs_val (F m) = limbs_val (take m X) * limbs_val Y - limbs_val (take m Q) * limbs_val P
            - limbs_val (take m R)
      \<and> (\<forall>k < 2 * LIMB_NUM - 1. \<bar>F m ! k\<bar> \<le> int m * (MODULUS * MODULUS))"
    if "m \<le> LIMB_NUM" for m
    using that
  proof (induction m)
    case 0
    then show ?case by (simp add: F_def)
  next
    case (Suc m)
    then have m: "m < LIMB_NUM" and ih: "length (F m) = 2 * LIMB_NUM - 1"
      "limbs_val (F m) = limbs_val (take m X) * limbs_val Y - limbs_val (take m Q) * limbs_val P
            - limbs_val (take m R)"
      "\<And>k. k < 2 * LIMB_NUM - 1 \<Longrightarrow> \<bar>F m ! k\<bar> \<le> int m * (MODULUS * MODULUS)"
      by simp_all
    have s: "F (Suc m) = row m (F m)" by (simp add: F_def)
    note r = delta_row_val[OF len ih(1) m, folded row_def[unfolded Let_def, THEN fun_cong, THEN fun_cong]]
    have tk: "limbs_val (take (Suc m) X) = limbs_val (take m X) + MODULUS ^ m * X ! m"
      "limbs_val (take (Suc m) Q) = limbs_val (take m Q) + MODULUS ^ m * Q ! m"
      "limbs_val (take (Suc m) R) = limbs_val (take m R) + MODULUS ^ m * R ! m"
      using m len by (simp_all add: limbs_val_take_Suc)
    have v: "limbs_val (F (Suc m)) = limbs_val (take (Suc m) X) * limbs_val Y
            - limbs_val (take (Suc m) Q) * limbs_val P - limbs_val (take (Suc m) R)"
      unfolding s r(1) ih(2) tk by (simp add: algebra_simps)
    have b: "\<bar>F (Suc m) ! k\<bar> \<le> int (Suc m) * (MODULUS * MODULUS)" if k: "k < 2 * LIMB_NUM - 1" for k
    proof -
      define t where "t = (if m \<le> k \<and> k < m + LIMB_NUM
          then X ! m * Y ! (k - m) - Q ! m * P ! (k - m) else 0) - (if k = m then R ! m else 0)"
      have fk: "F (Suc m) ! k = F m ! k + t"
        unfolding s r(3)[OF k] t_def by simp
      have xm: "0 \<le> X ! m" "X ! m < MODULUS" and qm: "0 \<le> Q ! m" "Q ! m < MODULUS"
        and rm: "0 \<le> R ! m" "R ! m < MODULUS"
        using limbs_ok_nth[OF assms(1) m] limbs_ok_nth[OF assms(3) m] limbs_ok_nth[OF assms(4) m]
        by simp_all
      define S where "S = (MODULUS - 1) * (MODULUS - 1)"
      define BB where "BB = MODULUS * MODULUS"
      define r' where "r' = (if k = m then R ! m else 0)"
      have sq: "S + (MODULUS - 1) \<le> BB" "0 \<le> S"
      proof -
        show "S + (MODULUS - 1) \<le> BB"
          using MODULUS_pos by (simp add: S_def BB_def algebra_simps)
        show "0 \<le> S" unfolding S_def by (rule zero_le_square)
      qed
      have r': "0 \<le> r'" "r' \<le> MODULUS - 1"
        using rm MODULUS_pos by (simp_all add: r'_def)
      have "\<bar>t\<bar> \<le> BB"
      proof (cases "m \<le> k \<and> k < m + LIMB_NUM")
        case True
        then have j: "k - m < LIMB_NUM" by linarith
        have y: "0 \<le> Y ! (k - m)" "Y ! (k - m) < MODULUS" and p: "0 \<le> P ! (k - m)" "P ! (k - m) < MODULUS"
          using limbs_ok_nth[OF assms(2) j] limbs_ok_nth[OF assms(5) j] by simp_all
        note xy = limb_product_bounds[OF xm y, folded S_def]
          and qp = limb_product_bounds[OF qm p, folded S_def]
        have "t = X ! m * Y ! (k - m) - Q ! m * P ! (k - m) - r'"
          unfolding t_def r'_def using True by simp
        then show ?thesis
          using xy qp r' sq by linarith
      next
        case False
        then have "t = - r'" unfolding t_def r'_def by auto
        then show ?thesis
          using r' sq by linarith
      qed
      then have "\<bar>t\<bar> \<le> MODULUS * MODULUS" by (simp add: BB_def)
      then have "\<bar>F (Suc m) ! k\<bar> \<le> int m * (MODULUS * MODULUS) + MODULUS * MODULUS"
        unfolding fk using ih(3)[OF k] by linarith
      then show ?thesis by (simp add: algebra_simps)
    qed
    show ?case using r(2) v b unfolding s by simp
  qed
  show "length (delta_int X Y Q R P) = 2 * LIMB_NUM - 1"
    unfolding e using inv[of LIMB_NUM] by simp
  show "limbs_val (delta_int X Y Q R P) = limbs_val X * limbs_val Y - limbs_val Q * limbs_val P - limbs_val R"
    unfolding e using inv[of LIMB_NUM] len by simp
  show "\<And>k. k < 2 * LIMB_NUM - 1 \<Longrightarrow> \<bar>delta_int X Y Q R P ! k\<bar> \<le> int LIMB_NUM * (MODULUS * MODULUS)"
    unfolding e using inv[of LIMB_NUM] by simp
qed


subsection \<open>The carry chain accepts every true identity\<close>

lemma carry_bound_step:
  fixes c d c' :: int
  assumes "\<bar>c\<bar> \<le> 2 ^ 126" "\<bar>d\<bar> \<le> 2 ^ 237" "d + c = c' * MODULUS"
  shows "\<bar>c'\<bar> \<le> 2 ^ 126"
proof -
  have "c' * 2 ^ 116 = d + c"
    using assms(3) by (simp add: MODULUS_eq)
  then have "\<bar>c'\<bar> * 2 ^ 116 = \<bar>d + c\<bar>"
    by (simp add: abs_mult)
  also have "\<dots> \<le> \<bar>d\<bar> + \<bar>c\<bar>"
    by (rule abs_triangle_ineq)
  finally have "\<bar>c'\<bar> * 2 ^ 116 \<le> 2 ^ 237 + 2 ^ 126"
    using assms(1,2) by linarith
  then show ?thesis by simp
qed

lemma multiply_carry_ok:
  assumes "m < length D" "D ! m + c = c' * MODULUS" "\<bar>c'\<bar> \<le> 2 ^ 126"
  shows "multiply_carry (map (\<lambda>v. v mod Field_ORDER) D) m (c mod Field_ORDER)
           = Some (c' mod Field_ORDER)"
proof -
  have dpc: "Field_add (map (\<lambda>v. v mod Field_ORDER) D ! m) (c mod Field_ORDER)
      = (c' * MODULUS) mod Field_ORDER"
    using assms(1) by (simp add: Field_add_def mod_simps assms(2))
  have "(2::int) ^ 126 < 2 ^ 127" by simp
  then have "- (2 ^ 127) \<le> c'" "c' < 2 ^ 127"
    using assms(3) by linarith+
  then have r: "rangeCheck128Signed (c' mod Field_ORDER) = Some ()"
    by (rule rangeCheck128Signed_ok)
  have p: "push_bit LIMB_BITS 1 = MODULUS" by (simp add: MODULUS_def)
  have m: "Field_mul (c' mod Field_ORDER) MODULUS = (c' * MODULUS) mod Field_ORDER"
    by (simp add: Field_mul_def mod_simps)
  have dv: "Field_div ((c' * MODULUS) mod Field_ORDER) MODULUS = Some (c' mod Field_ORDER)"
    using Field_div_exact[of c'] unfolding p .
  show ?thesis
    unfolding multiply_carry_def Let_def p dpc dv
    by (simp add: r m assertTrue_def Field_equals_def)
qed

lemma carry_chain:
  assumes "limbs_val D = 0" "\<And>k. k < length D \<Longrightarrow> \<bar>D ! k\<bar> \<le> 2 ^ 237" "m \<le> length D"
  shows "forM [0..<m] (multiply_carry (map (\<lambda>v. v mod Field_ORDER) D)) 0
           = Some ((- limbs_val (drop m D)) mod Field_ORDER)
         \<and> \<bar>limbs_val (drop m D)\<bar> \<le> 2 ^ 126"
  using assms(3)
proof (induction m)
  case 0
  then show ?case by (simp add: assms(1))
next
  case (Suc m)
  then have m: "m < length D" and ih: "forM [0..<m] (multiply_carry (map (\<lambda>v. v mod Field_ORDER) D)) 0
           = Some ((- limbs_val (drop m D)) mod Field_ORDER)"
    "\<bar>limbs_val (drop m D)\<bar> \<le> 2 ^ 126"
    by simp_all
  have d: "limbs_val (drop m D) = D ! m + MODULUS * limbs_val (drop (Suc m) D)"
    using Cons_nth_drop_Suc[OF m, symmetric] by simp
  then have e: "D ! m + (- limbs_val (drop m D)) = (- limbs_val (drop (Suc m) D)) * MODULUS"
    by simp
  have b: "\<bar>- limbs_val (drop (Suc m) D)\<bar> \<le> 2 ^ 126"
    by (rule carry_bound_step[OF _ assms(2)[OF m] e]) (use ih(2) in simp)
  have "forM [0..<Suc m] (multiply_carry (map (\<lambda>v. v mod Field_ORDER) D)) 0
      = multiply_carry (map (\<lambda>v. v mod Field_ORDER) D) m ((- limbs_val (drop m D)) mod Field_ORDER)"
    by (simp add: forM_append ih(1) split: option.splits)
  also have "\<dots> = Some ((- limbs_val (drop (Suc m) D)) mod Field_ORDER)"
    by (rule multiply_carry_ok[OF m e b])
  finally show ?case using b by simp
qed

lemma multiply_constraints_complete:
  assumes "limbs_ok X" "limbs_ok Y" "limbs_ok Q" "limbs_ok R" "limbs_ok P"
    "limbs_val X * limbs_val Y = limbs_val Q * limbs_val P + limbs_val R"
  shows "multiply_constraints False X Y Q R P = Some ()"
proof -
  define D where "D = delta_int X Y Q R P"
  note props = delta_int_props[OF assms(1-5), folded D_def]
  have z: "limbs_val D = 0" using props(2) assms(6) by simp
  have "int LIMB_NUM * (MODULUS * MODULUS) \<le> 2 ^ 237"
    by (simp add: LIMB_NUM_def MODULUS_eq)
  then have bd: "\<And>k. k < length D \<Longrightarrow> \<bar>D ! k\<bar> \<le> 2 ^ 237"
    using props(1,3) by force
  have n: "0 < LIMB_NUM" by (simp add: LIMB_NUM_def)
  have l: "2 * LIMB_NUM - 2 \<le> length D" "2 * LIMB_NUM - 2 < length D"
    using props(1) n by simp_all
  have dr: "drop (2 * LIMB_NUM - 2) D = [D ! (2 * LIMB_NUM - 2)]"
  proof -
    have "drop (2 * LIMB_NUM - 2) D = D ! (2 * LIMB_NUM - 2) # drop (Suc (2 * LIMB_NUM - 2)) D"
      using Cons_nth_drop_Suc[OF l(2)] by simp
    moreover have "Suc (2 * LIMB_NUM - 2) = length D" using props(1) n by simp
    ultimately show ?thesis by simp
  qed
  have c: "forM [0..<2 * LIMB_NUM - 2] (multiply_carry (map (\<lambda>v. v mod Field_ORDER) D)) 0
           = Some ((- D ! (2 * LIMB_NUM - 2)) mod Field_ORDER)"
    using carry_chain[OF z bd l(1)] by (simp add: dr)
  have f: "Field_add (map (\<lambda>v. v mod Field_ORDER) D ! (2 * LIMB_NUM - 2))
             ((- D ! (2 * LIMB_NUM - 2)) mod Field_ORDER) = 0"
    using l(2) by (simp add: Field_add_def mod_simps)
  show ?thesis
    unfolding multiply_constraints_def multiply_delta_mod D_def[symmetric] Let_def c
    by (simp add: f assertTrue_def Field_equals_def)
qed

subsection \<open>The carry chain accepts only true identities\<close>

lemma mod_ORDER_eq_small:
  fixes a b :: int
  assumes "a mod Field_ORDER = b mod Field_ORDER" "\<bar>a - b\<bar> < Field_ORDER"
  shows "a = b"
proof -
  have d: "Field_ORDER dvd a - b" using assms(1) by (simp add: mod_eq_dvd_iff)
  have "a - b = 0"
  proof (rule ccontr)
    assume "a - b \<noteq> 0"
    then have "0 < \<bar>a - b\<bar>" by simp
    moreover have "Field_ORDER dvd \<bar>a - b\<bar>" using d by simp
    ultimately have "Field_ORDER \<le> \<bar>a - b\<bar>" by (rule zdvd_imp_le[rotated])
    then show False using assms(2) by linarith
  qed
  then show ?thesis by simp
qed

lemma int_less_of_div_less:
  fixes a b x :: int
  assumes "0 < b" "x div b < a"
  shows "x < a * b"
proof -
  have "x div b + 1 \<le> a" using assms(2) by simp
  then have "(x div b + 1) * b \<le> a * b" using assms(1) by (simp add: mult_right_mono)
  moreover have "(x div b + 1) * b = x div b * b + b" by (simp add: algebra_simps)
  moreover have "x div b * b + x mod b = x" by simp
  moreover have "x mod b < b" using assms(1) by simp
  ultimately show ?thesis by linarith
qed

lemma rangeCheck128Signed_sound:
  assumes "0 \<le> c" "c < Field_ORDER" "rangeCheck128Signed c = Some ()"
  shows "\<exists>s. - (2 ^ 127) \<le> s \<and> s < 2 ^ 127 \<and> s mod Field_ORDER = c"
proof -
  define x where "x = Field_add c (push_bit 127 1)"
  have x3: "x = (c + 2 ^ 127) mod Field_ORDER"
    unfolding x_def Field_add_def push_bit_of_1 ..
  have x: "0 \<le> x" "x < Field_ORDER"
    unfolding x3 using Field_ORDER_pos by simp_all
  have d0: "0 \<le> x div 2 ^ 64" using x(1) by (simp add: pos_imp_zdiv_nonneg_iff)
  have "x div 2 ^ 64 * 2 ^ 64 \<le> x" by (rule int_div_mult_le) simp
  moreover have "x div 2 ^ 64 \<le> x div 2 ^ 64 * 2 ^ 64" using d0 by simp
  ultimately have d1: "x div 2 ^ 64 < Field_ORDER" using x(2) by linarith
  have f1: "Field_from (drop_bit 64 x) = x div 2 ^ 64"
    unfolding drop_bit_eq_div by (rule Field_from_id[OF d0 d1])
  obtain hi where "rangeCheck64 (Field_from (drop_bit 64 x)) = Some hi"
    using assms(3) unfolding rangeCheck128Signed_def Let_def x_def[symmetric]
    by (auto simp add: bind_eq_Some_conv)
  then have "x div 2 ^ 64 < 2 ^ 64"
    unfolding f1 rangeCheck64_def by (simp split: if_splits)
  then have "x < 2 ^ 64 * 2 ^ 64"
    by (rule int_less_of_div_less[rotated]) simp
  then have xb: "x < 2 ^ 128" by simp
  define s where "s = x - 2 ^ 127"
  have "s mod Field_ORDER = (c + 2 ^ 127 - 2 ^ 127) mod Field_ORDER"
    unfolding s_def x3 by (simp only: mod_diff_left_eq)
  also have "\<dots> = c mod Field_ORDER" by simp
  also have "\<dots> = c" by (rule mod_pos_pos_trivial[OF assms(1,2)])
  finally have "s mod Field_ORDER = c" .
  moreover have "- (2 ^ 127) \<le> s" using x(1) unfolding s_def by linarith
  moreover have "s < 2 ^ 127" using xb unfolding s_def by simp
  ultimately show ?thesis by blast
qed

lemma carry_body_Some:
  assumes "(A \<bind> (\<lambda>c'. B c' \<bind> (\<lambda>_. assertTrue (C c') \<bind> (\<lambda>_. Some c')))) = Some r"
  shows "A = Some r" "B r = Some ()" "C r"
  using assms by (auto simp add: bind_eq_Some_conv assertTrue_def split: if_splits)

lemma carry_no_wrap:
  fixes d c s :: int
  assumes "\<bar>d\<bar> \<le> 2 ^ 237" "\<bar>c\<bar> \<le> 2 ^ 127" "\<bar>s\<bar> \<le> 2 ^ 127"
  shows "\<bar>d + c - s * MODULUS\<bar> < Field_ORDER"
proof -
  have "\<bar>s * MODULUS\<bar> = \<bar>s\<bar> * 2 ^ 116" by (simp add: abs_mult MODULUS_eq)
  also have "\<dots> \<le> 2 ^ 127 * 2 ^ 116" using assms(3) by (intro mult_right_mono) simp_all
  finally have pb: "\<bar>s * MODULUS\<bar> \<le> 2 ^ 243" by simp
  have "\<bar>d + c - s * MODULUS\<bar> \<le> \<bar>d + c\<bar> + \<bar>s * MODULUS\<bar>" by (rule abs_triangle_ineq4)
  also have "\<bar>d + c\<bar> \<le> \<bar>d\<bar> + \<bar>c\<bar>" by (rule abs_triangle_ineq)
  finally have "\<bar>d + c - s * MODULUS\<bar> \<le> \<bar>d\<bar> + \<bar>c\<bar> + \<bar>s * MODULUS\<bar>" by simp
  also have "\<dots> \<le> 2 ^ 237 + 2 ^ 127 + 2 ^ 243" using assms(1,2) pb by (intro add_mono)
  also have "\<dots> < Field_ORDER" by (simp add: Field_ORDER_def)
  finally show ?thesis .
qed

lemma multiply_carry_sound:
  assumes "m < length D" "\<bar>D ! m\<bar> \<le> 2 ^ 237" "\<bar>c\<bar> \<le> 2 ^ 127"
    "multiply_carry (map (\<lambda>v. v mod Field_ORDER) D) m (c mod Field_ORDER) = Some c'"
  shows "\<exists>s. c' = s mod Field_ORDER \<and> \<bar>s\<bar> \<le> 2 ^ 127 \<and> D ! m + c = s * MODULUS"
proof -
  have p: "push_bit LIMB_BITS 1 = MODULUS" by (simp add: MODULUS_def)
  have dpc: "Field_add (map (\<lambda>v. v mod Field_ORDER) D ! m) (c mod Field_ORDER)
      = (D ! m + c) mod Field_ORDER"
    using assms(1) by (simp add: Field_add_def mod_simps)
  note b = carry_body_Some[OF assms(4)[unfolded multiply_carry_def Let_def p dpc]]
  have eq: "(D ! m + c) mod Field_ORDER = Field_mul c' MODULUS"
    using b(3) by (simp only: Field_equals_def)
  obtain i where "c' = Field_mul ((D ! m + c) mod Field_ORDER) i"
    using b(1) unfolding Field_div_def by (cases "Field_inv MODULUS") auto
  then have c': "0 \<le> c'" "c' < Field_ORDER"
    unfolding Field_mul_def using Field_ORDER_pos by simp_all
  obtain s where s: "- (2 ^ 127) \<le> s" "s < 2 ^ 127" "s mod Field_ORDER = c'"
    using rangeCheck128Signed_sound[OF c' b(2)] by blast
  have "Field_mul c' MODULUS = (s * MODULUS) mod Field_ORDER"
    unfolding s(3)[symmetric] Field_mul_def by (simp only: mod_mult_left_eq)
  then have me: "(D ! m + c) mod Field_ORDER = (s * MODULUS) mod Field_ORDER"
    using eq by simp
  have sb: "\<bar>s\<bar> \<le> 2 ^ 127" using s(1,2) by linarith
  have "D ! m + c = s * MODULUS"
    using me carry_no_wrap[OF assms(2,3) sb] by (rule mod_ORDER_eq_small)
  then show ?thesis using s(3) sb by blast
qed

lemma carry_chain_sound:
  assumes "\<And>k. k < length D \<Longrightarrow> \<bar>D ! k\<bar> \<le> 2 ^ 237" "m \<le> length D"
    "forM [0..<m] (multiply_carry (map (\<lambda>v. v mod Field_ORDER) D)) 0 = Some c"
  shows "\<exists>s. c = s mod Field_ORDER \<and> \<bar>s\<bar> \<le> 2 ^ 127 \<and> s * MODULUS ^ m = limbs_val (take m D)"
  using assms(2,3)
proof (induction m arbitrary: c)
  case 0
  then show ?case by (intro exI[of _ 0]) simp
next
  case (Suc m)
  then have m: "m < length D" "m \<le> length D" by simp_all
  obtain c0 where c0: "forM [0..<m] (multiply_carry (map (\<lambda>v. v mod Field_ORDER) D)) 0 = Some c0"
    and st: "multiply_carry (map (\<lambda>v. v mod Field_ORDER) D) m c0 = Some c"
    using Suc.prems(2) by (auto simp add: forM_append split: option.splits)
  obtain s0 where s0: "c0 = s0 mod Field_ORDER" "\<bar>s0\<bar> \<le> 2 ^ 127"
    "s0 * MODULUS ^ m = limbs_val (take m D)"
    using Suc.IH[OF m(2) c0] by blast
  obtain s where s: "c = s mod Field_ORDER" "\<bar>s\<bar> \<le> 2 ^ 127" "D ! m + s0 = s * MODULUS"
    using multiply_carry_sound[OF m(1) assms(1)[OF m(1)] s0(2) st[unfolded s0(1)]] by blast
  have "s * MODULUS ^ Suc m = (s * MODULUS) * MODULUS ^ m" by simp
  also have "\<dots> = limbs_val (take (Suc m) D)"
    unfolding s(3)[symmetric] limbs_val_take_Suc[OF m(1)] s0(3)[symmetric]
    by (simp add: algebra_simps)
  finally show ?case using s(1,2) by blast
qed

lemma final_body_Some:
  assumes "(A \<bind> (\<lambda>c. assertTrue (C c))) = Some ()"
  shows "\<exists>c. A = Some c \<and> C c"
  using assms by (auto simp add: bind_eq_Some_conv assertTrue_def split: if_splits)

lemma constraints_last_sum:
  assumes "\<And>k. k < length D \<Longrightarrow> \<bar>D ! k\<bar> \<le> 2 ^ 237" "L < length D"
    "forM [0..<L] (multiply_carry (map (\<lambda>v. v mod Field_ORDER) D)) 0 = Some c"
    "Field_equals (Field_add (map (\<lambda>v. v mod Field_ORDER) D ! L) c) 0"
  shows "limbs_val (take (Suc L) D) = 0"
proof -
  have l: "L \<le> length D" using assms(2) by simp
  obtain s where s: "c = s mod Field_ORDER" "\<bar>s\<bar> \<le> 2 ^ 127" "s * MODULUS ^ L = limbs_val (take L D)"
    using carry_chain_sound[OF assms(1) l assms(3)] by blast
  have "Field_add (map (\<lambda>v. v mod Field_ORDER) D ! L) c = (D ! L + s) mod Field_ORDER"
    unfolding s(1) Field_add_def nth_map[OF assms(2)] by (simp only: mod_add_eq)
  then have m0: "(D ! L + s) mod Field_ORDER = 0 mod Field_ORDER"
    using assms(4) by (simp only: Field_equals_def mod_0)
  have "\<bar>D ! L + s - 0\<bar> = \<bar>D ! L + s\<bar>" by simp
  also have "\<dots> \<le> \<bar>D ! L\<bar> + \<bar>s\<bar>" by (rule abs_triangle_ineq)
  also have "\<dots> \<le> 2 ^ 237 + 2 ^ 127" using assms(1)[OF assms(2)] s(2) by (intro add_mono)
  also have "\<dots> < Field_ORDER" by (simp add: Field_ORDER_def)
  finally have z: "D ! L + s = 0" by (rule mod_ORDER_eq_small[OF m0])
  have "limbs_val (take (Suc L) D) = limbs_val (take L D) + MODULUS ^ L * D ! L"
    by (rule limbs_val_take_Suc[OF assms(2)])
  also have "\<dots> = MODULUS ^ L * (D ! L + s)"
    unfolding s(3)[symmetric] by (simp only: distrib_left mult.commute add.commute)
  also have "\<dots> = 0" unfolding z by simp
  finally show ?thesis .
qed

lemma multiply_constraints_sound:
  assumes "limbs_ok X" "limbs_ok Y" "limbs_ok Q" "limbs_ok R" "limbs_ok P"
    "multiply_constraints False X Y Q R P = Some ()"
  shows "limbs_val X * limbs_val Y = limbs_val Q * limbs_val P + limbs_val R"
proof -
  define D where "D = delta_int X Y Q R P"
  define L where "L = 2 * LIMB_NUM - 2"
  note props = delta_int_props[OF assms(1-5), folded D_def]
  have "int LIMB_NUM * (MODULUS * MODULUS) \<le> 2 ^ 237"
    by (simp add: LIMB_NUM_def MODULUS_eq)
  then have bd: "\<And>k. k < length D \<Longrightarrow> \<bar>D ! k\<bar> \<le> 2 ^ 237"
    using props(1,3) by force
  have n: "0 < LIMB_NUM" by (simp add: LIMB_NUM_def)
  have l: "L < length D" "Suc L = length D"
    using props(1) n by (simp_all add: L_def)
  obtain c where c: "forM [0..<L] (multiply_carry (map (\<lambda>v. v mod Field_ORDER) D)) 0 = Some c"
    and f: "Field_equals (Field_add (map (\<lambda>v. v mod Field_ORDER) D ! L) c) 0"
    using final_body_Some[OF assms(6)[unfolded multiply_constraints_def multiply_delta_mod
          D_def[symmetric] Let_def L_def[symmetric]]]
    by blast
  have "limbs_val (take (Suc L) D) = 0"
    by (rule constraints_last_sum[OF bd l(1) c f])
  then have "limbs_val D = 0" unfolding l(2) by simp
  then show ?thesis using props(2) by linarith
qed


subsection \<open>What \<open>multiply\<close> and \<open>mul\<close> return\<close>

lemma witness_pair_eq:
  "witness_pair (q, r) =
     (if \<bar>q\<bar> < BOUND \<and> \<bar>r\<bar> < BOUND
      then Some (\<lparr>negative = q < 0, fields' = to_limbs LIMB_NUM \<bar>q\<bar>\<rparr>,
                 \<lparr>negative = r < 0, fields' = to_limbs LIMB_NUM \<bar>r\<bar>\<rparr>)
      else None)"
  by (simp add: witness_pair_def Bigint2048_from_eq check_inrange inrange_from)

lemma bigint_div_rem:
  assumes "b \<noteq> 0"
  shows "\<bar>bigint_div a b\<bar> = \<bar>a\<bar> div \<bar>b\<bar>"
    and "a - bigint_div a b * b = sgn a * (\<bar>a\<bar> mod \<bar>b\<bar>)"
    and "bigint_rem a b = a - bigint_div a b * b"
proof -
  have nn: "0 \<le> \<bar>a\<bar> div \<bar>b\<bar>" by (simp add: pos_imp_zdiv_nonneg_iff assms)
  show "\<bar>bigint_div a b\<bar> = \<bar>a\<bar> div \<bar>b\<bar>"
    using assms nn by (cases "a = 0") (simp_all add: bigint_div_def abs_mult abs_sgn_eq)
  have "bigint_div a b * b = sgn a * ((\<bar>a\<bar> div \<bar>b\<bar>) * (sgn b * b))"
    by (simp add: bigint_div_def algebra_simps)
  also have "sgn b * b = \<bar>b\<bar>" by (simp add: abs_sgn mult.commute)
  finally have e: "bigint_div a b * b = sgn a * ((\<bar>a\<bar> div \<bar>b\<bar>) * \<bar>b\<bar>)" .
  have "a = sgn a * \<bar>a\<bar>" by (simp add: sgn_mult_abs)
  also have "\<bar>a\<bar> = (\<bar>a\<bar> div \<bar>b\<bar>) * \<bar>b\<bar> + \<bar>a\<bar> mod \<bar>b\<bar>" by simp
  finally have "a = sgn a * ((\<bar>a\<bar> div \<bar>b\<bar>) * \<bar>b\<bar>) + sgn a * (\<bar>a\<bar> mod \<bar>b\<bar>)"
    by (simp only: distrib_left)
  then show r: "a - bigint_div a b * b = sgn a * (\<bar>a\<bar> mod \<bar>b\<bar>)"
    unfolding e by linarith
  show "bigint_rem a b = a - bigint_div a b * b"
    unfolding r by (simp add: bigint_rem_def)
qed

lemma multiply_eq:
  assumes "inrange x" "inrange y" "inrange p"
  shows "multiply x y p False =
     (if toBigInt p = 0 \<or> BOUND \<le> \<bar>toBigInt x * toBigInt y\<bar> div \<bar>toBigInt p\<bar> then None
      else Some \<lparr>negative = (toBigInt x * toBigInt y < 0
                           \<and> \<bar>toBigInt x * toBigInt y\<bar> mod \<bar>toBigInt p\<bar> \<noteq> 0),
                fields' = to_limbs LIMB_NUM (\<bar>toBigInt x * toBigInt y\<bar> mod \<bar>toBigInt p\<bar>)\<rparr>)"
proof (cases "toBigInt p = 0")
  case True
  then show ?thesis by (simp add: multiply_def multiply_witness_def)
next
  case False
  define xy where "xy = toBigInt x * toBigInt y"
  define p0 where "p0 = toBigInt p"
  define q where "q = bigint_div xy p0"
  define r where "r = xy - q * p0"
  have p0: "p0 \<noteq> 0" using False by (simp add: p0_def)
  have aq: "\<bar>q\<bar> = \<bar>xy\<bar> div \<bar>p0\<bar>" and rr: "r = sgn xy * (\<bar>xy\<bar> mod \<bar>p0\<bar>)"
    unfolding q_def r_def using bigint_div_rem[OF p0] by simp_all
  have m: "0 \<le> \<bar>xy\<bar> mod \<bar>p0\<bar>" "\<bar>xy\<bar> mod \<bar>p0\<bar> < \<bar>p0\<bar>"
    using p0 by simp_all
  have ar: "\<bar>r\<bar> = \<bar>xy\<bar> mod \<bar>p0\<bar>"
    unfolding rr using m(1) by (cases "xy = 0") (simp_all add: abs_mult abs_sgn_eq)
  have rneg: "r < 0 \<longleftrightarrow> xy < 0 \<and> \<bar>xy\<bar> mod \<bar>p0\<bar> \<noteq> 0"
    unfolding rr using m(1) by (auto simp add: mult_less_0_iff sgn_if)
  have pb: "\<bar>p0\<bar> < BOUND"
    unfolding p0_def using abs_toBigInt[OF assms(3)] limbs_val_lt_BOUND[OF assms(3)] by simp
  have rb: "\<bar>r\<bar> < BOUND" using ar m(2) pb by linarith
  have w: "multiply_witness x y p = witness_pair (q, r)"
    using False by (simp add: multiply_witness_def Let_def q_def r_def xy_def p0_def)
  show ?thesis
  proof (cases "\<bar>q\<bar> < BOUND")
    case qb: False
    then show ?thesis
      using False rb by (simp add: multiply_def w witness_pair_eq aq xy_def p0_def)
  next
    case qb: True
    let ?Q = "to_limbs LIMB_NUM \<bar>q\<bar>" and ?R = "to_limbs LIMB_NUM \<bar>r\<bar>"
    have vq: "limbs_val ?Q = \<bar>q\<bar>" and vr: "limbs_val ?R = \<bar>r\<bar>"
      using qb rb by (simp_all add: limbs_val_to_limbs BOUND_eq)
    have ok: "limbs_ok (fields' x)" "limbs_ok (fields' y)" "limbs_ok ?Q" "limbs_ok ?R"
      "limbs_ok (fields' p)"
      using assms by (simp_all add: inrange_def limbs_ok_def list_all_to_limbs)
    have "limbs_val (fields' x) * limbs_val (fields' y) = \<bar>xy\<bar>"
      unfolding xy_def abs_mult by (simp only: abs_toBigInt assms)
    also have "\<dots> = (\<bar>xy\<bar> div \<bar>p0\<bar>) * \<bar>p0\<bar> + \<bar>xy\<bar> mod \<bar>p0\<bar>" by simp
    also have "\<dots> = \<bar>q\<bar> * \<bar>p0\<bar> + \<bar>r\<bar>"
      by (simp only: aq ar)
    also have "\<dots> = limbs_val ?Q * limbs_val (fields' p) + limbs_val ?R"
      unfolding vq vr p0_def by (simp only: abs_toBigInt assms)
    finally have c: "multiply_constraints False (fields' x) (fields' y) ?Q ?R (fields' p) = Some ()"
      by (rule multiply_constraints_complete[OF ok])
    show ?thesis
      using False qb rb c aq
      by (simp add: multiply_def w witness_pair_eq ar rneg xy_def[symmetric] p0_def[symmetric])
  qed
qed


lemma mul_eq:
  assumes "inrange a" "inrange b"
  shows "mul a b = Some \<lparr>negative = (\<not> (negative a = negative b)),
       fields' = to_limbs LIMB_NUM ((limbs_val (fields' a) * limbs_val (fields' b)) mod (BOUND - 1))\<rparr>"
proof -
  define A where "A = limbs_val (fields' a)"
  define B where "B = limbs_val (fields' b)"
  have a: "0 \<le> A" "A \<le> BOUND - 1" and b: "0 \<le> B" "B \<le> BOUND - 1"
    using limbs_val_nonneg[OF assms(1)] limbs_val_lt_BOUND[OF assms(1)]
      limbs_val_nonneg[OF assms(2)] limbs_val_lt_BOUND[OF assms(2)]
    unfolding A_def B_def by linarith+
  have M: "0 < BOUND - 1" by (simp add: BOUND_def)
  have "A * B \<le> (BOUND - 1) * (BOUND - 1)"
    using a b by (intro mult_mono) simp_all
  also have "\<dots> < BOUND * (BOUND - 1)"
    using M by (intro mult_strict_right_mono) simp_all
  finally have d: "(A * B) div (BOUND - 1) < BOUND"
    using M by (intro int_div_less)
  have nn: "0 \<le> A * B" using a b by simp
  have ra: "inrange (abs_big a)" and rb: "inrange (abs_big b)" using assms by simp_all
  have va: "toBigInt (abs_big a) = A" and vb: "toBigInt (abs_big b) = B"
    unfolding A_def B_def using toBigInt_abs_big assms by simp_all
  have ab: "\<bar>A * B\<bar> = A * B" "\<bar>BOUND - 1\<bar> = BOUND - 1" using nn M by simp_all
  have c: "\<not> (BOUND - 1 = 0 \<or> BOUND \<le> (A * B) div (BOUND - 1))" using d M by simp
  have n: "\<not> A * B < 0" using nn by simp
  have "multiply (abs_big a) (abs_big b) Bigint2048_MAX False
     = Some \<lparr>negative = False, fields' = to_limbs LIMB_NUM ((A * B) mod (BOUND - 1))\<rparr>"
    unfolding multiply_eq[OF ra rb MAX_props(1)] va vb MAX_props(2) ab if_not_P[OF c]
    using n by simp
  then show ?thesis
    by (simp add: mul_def modMul_def A_def B_def)
qed


lemma modMul_eq:
  assumes "inrange x" "inrange y" "inrange p"
  shows "modMul p x y =
     (if toBigInt p = 0 \<or> BOUND \<le> \<bar>toBigInt x * toBigInt y\<bar> div \<bar>toBigInt p\<bar> then None
      else Some \<lparr>negative = (toBigInt x * toBigInt y < 0
                           \<and> \<bar>toBigInt x * toBigInt y\<bar> mod \<bar>toBigInt p\<bar> \<noteq> 0),
                fields' = to_limbs LIMB_NUM (\<bar>toBigInt x * toBigInt y\<bar> mod \<bar>toBigInt p\<bar>)\<rparr>)"
  unfolding modMul_def by (rule multiply_eq[OF assms])

lemma abs_toBigInt_from:
  assumes "0 \<le> v" "v < BOUND"
  shows "\<bar>toBigInt \<lparr>negative = s, fields' = to_limbs LIMB_NUM v\<rparr>\<bar> = v"
proof -
  have "limbs_val (to_limbs LIMB_NUM v) = v"
    using assms by (simp add: limbs_val_to_limbs BOUND_eq)
  then show ?thesis
    using abs_toBigInt[OF inrange_from, of s v] by simp
qed

text \<open>
  C3, as the code has it: the witnessed quotient goes through \<open>Bigint2048.from\<close>, which
  refuses a magnitude of \<open>2^2088\<close> or more. For \<open>x\<close>, \<open>y\<close> and a non-zero \<open>p\<close> with limbs
  in range, \<open>p.modMul(x, y)\<close> returns exactly when \<open>(|x| * |y|) div |p| < 2^2088\<close>; the
  value \<open>r\<close> it returns has limbs in range and magnitude \<open>(|x| * |y|) mod |p|\<close>, so
  \<open>|x| * |y| = q * |p| + |r|\<close> for an integer \<open>q\<close>. The constraints prove exactly this
  identity: on in-range limb vectors \<open>Q\<close>, \<open>R\<close> they are satisfied if and only if
  \<open>|x| * |y| = Q * |p| + R\<close> over the integers, whether or not \<open>R < |p|\<close>, so the
  reduced range is not asserted.
\<close>

theorem modMul_identity:
  "inrange x \<Longrightarrow> inrange y \<Longrightarrow> inrange p \<Longrightarrow> toBigInt p \<noteq> 0 \<Longrightarrow>
     (\<bar>toBigInt x * toBigInt y\<bar> div \<bar>toBigInt p\<bar> < 2 ^ 2088 \<longrightarrow>
        (\<exists>r. modMul p x y = Some r \<and> inrange r
             \<and> \<bar>toBigInt r\<bar> = \<bar>toBigInt x * toBigInt y\<bar> mod \<bar>toBigInt p\<bar>
             \<and> (\<exists>q. \<bar>toBigInt x\<bar> * \<bar>toBigInt y\<bar> = q * \<bar>toBigInt p\<bar> + \<bar>toBigInt r\<bar>)))
     \<and> (2 ^ 2088 \<le> \<bar>toBigInt x * toBigInt y\<bar> div \<bar>toBigInt p\<bar> \<longrightarrow> modMul p x y = None)
     \<and> (\<forall>Q R. limbs_ok Q \<longrightarrow> limbs_ok R \<longrightarrow>
            (multiply_constraints False (fields' x) (fields' y) Q R (fields' p) = Some ()
             \<longleftrightarrow> limbs_val (fields' x) * limbs_val (fields' y)
                   = limbs_val Q * limbs_val (fields' p) + limbs_val R))"
proof -
  assume x: "inrange x" and y: "inrange y" and p: "inrange p" and nz: "toBigInt p \<noteq> 0"
  define xy where "xy = \<bar>toBigInt x * toBigInt y\<bar>"
  define p0 where "p0 = \<bar>toBigInt p\<bar>"
  have p0: "0 < p0" using nz by (simp add: p0_def)
  have pb: "p0 < BOUND"
    unfolding p0_def using abs_toBigInt[OF p] limbs_val_lt_BOUND[OF p] by simp
  have m: "0 \<le> xy mod p0" "xy mod p0 < BOUND"
  proof -
    show "0 \<le> xy mod p0" using p0 by simp
    show "xy mod p0 < BOUND" using pb pos_mod_bound[OF p0, of xy] by linarith
  qed
  have e: "modMul p x y = (if BOUND \<le> xy div p0 then None
      else Some \<lparr>negative = (toBigInt x * toBigInt y < 0 \<and> xy mod p0 \<noteq> 0),
                fields' = to_limbs LIMB_NUM (xy mod p0)\<rparr>)"
    unfolding modMul_eq[OF x y p] xy_def p0_def using nz by simp
  have 1: "\<exists>r. modMul p x y = Some r \<and> inrange r \<and> \<bar>toBigInt r\<bar> = xy mod p0
             \<and> (\<exists>q. \<bar>toBigInt x\<bar> * \<bar>toBigInt y\<bar> = q * p0 + \<bar>toBigInt r\<bar>)"
    if "xy div p0 < BOUND"
  proof -
    let ?r = "\<lparr>negative = (toBigInt x * toBigInt y < 0 \<and> xy mod p0 \<noteq> 0),
                fields' = to_limbs LIMB_NUM (xy mod p0)\<rparr>"
    have a: "modMul p x y = Some ?r" unfolding e using that by simp
    have b: "\<bar>toBigInt ?r\<bar> = xy mod p0" by (rule abs_toBigInt_from[OF m])
    have "\<bar>toBigInt x\<bar> * \<bar>toBigInt y\<bar> = (xy div p0) * p0 + xy mod p0"
      by (simp add: xy_def abs_mult)
    then show ?thesis using a b inrange_from by metis
  qed
  have 2: "modMul p x y = None" if "BOUND \<le> xy div p0"
    unfolding e using that by simp
  have ok: "limbs_ok (fields' x)" "limbs_ok (fields' y)" "limbs_ok (fields' p)"
    using x y p by (simp_all add: inrange_def)
  have 3: "multiply_constraints False (fields' x) (fields' y) Q R (fields' p) = Some ()
      \<longleftrightarrow> limbs_val (fields' x) * limbs_val (fields' y)
            = limbs_val Q * limbs_val (fields' p) + limbs_val R"
    if q: "limbs_ok Q" and r: "limbs_ok R" for Q R
  proof
    assume "multiply_constraints False (fields' x) (fields' y) Q R (fields' p) = Some ()"
    then show "limbs_val (fields' x) * limbs_val (fields' y)
            = limbs_val Q * limbs_val (fields' p) + limbs_val R"
      by (rule multiply_constraints_sound[OF ok(1,2) q r ok(3)])
  next
    assume "limbs_val (fields' x) * limbs_val (fields' y)
            = limbs_val Q * limbs_val (fields' p) + limbs_val R"
    then show "multiply_constraints False (fields' x) (fields' y) Q R (fields' p) = Some ()"
      by (rule multiply_constraints_complete[OF ok(1,2) q r ok(3)])
  qed
  show ?thesis
    unfolding BOUND_def[symmetric] xy_def[symmetric] p0_def[symmetric]
    using 1 2 3 by blast
qed

lemma limbs_ok_small: "0 \<le> v \<Longrightarrow> v < MODULUS \<Longrightarrow> limbs_ok (v # replicate 17 0)"
  using MODULUS_pos by (simp add: limbs_ok_def LIMB_NUM_def list_all_iff)

lemma limbs_val_small [simp]: "limbs_val (v # replicate n 0) = v"
  by simp

lemma toBigInt_small:
  "0 \<le> v \<Longrightarrow> v < MODULUS \<Longrightarrow> toBigInt \<lparr>negative = False, fields' = v # replicate 17 0\<rparr> = v"
  using limbs_ok_small[of v] by (simp add: toBigInt_inrange inrange_def)

theorem modMul_identity_witness:
  "inrange \<lparr>negative = False, fields' = 1 # replicate 17 0\<rparr>
   \<and> inrange \<lparr>negative = False, fields' = 5 # replicate 17 0\<rparr>
   \<and> inrange \<lparr>negative = False, fields' = 3 # replicate 17 0\<rparr>
   \<and> toBigInt \<lparr>negative = False, fields' = 3 # replicate 17 0\<rparr> \<noteq> 0
   \<and> (\<exists>r. modMul \<lparr>negative = False, fields' = 3 # replicate 17 0\<rparr>
            \<lparr>negative = False, fields' = 1 # replicate 17 0\<rparr>
            \<lparr>negative = False, fields' = 5 # replicate 17 0\<rparr> = Some r \<and> \<bar>toBigInt r\<bar> = 2)
   \<and> limbs_ok (0 # replicate 17 0) \<and> limbs_ok (5 # replicate 17 0)
   \<and> limbs_ok (4 # replicate 17 0)
   \<and> multiply_constraints False (1 # replicate 17 0) (5 # replicate 17 0)
         (0 # replicate 17 0) (5 # replicate 17 0) (3 # replicate 17 0) = Some ()
   \<and> multiply_constraints False (1 # replicate 17 0) (5 # replicate 17 0)
         (0 # replicate 17 0) (4 # replicate 17 0) (3 # replicate 17 0) \<noteq> Some ()"
proof -
  let ?x = "\<lparr>negative = False, fields' = 1 # replicate 17 0\<rparr>"
  let ?y = "\<lparr>negative = False, fields' = 5 # replicate 17 0\<rparr>"
  let ?p = "\<lparr>negative = False, fields' = 3 # replicate 17 0\<rparr>"
  have o: "limbs_ok (0 # replicate 17 0)" "limbs_ok (1 # replicate 17 0)"
    "limbs_ok (5 # replicate 17 0)" "limbs_ok (3 # replicate 17 0)"
    "limbs_ok (4 # replicate 17 0)"
    by (rule limbs_ok_small; simp add: MODULUS_eq)+
  have r: "inrange ?x" "inrange ?y" "inrange ?p"
    using o by (simp_all add: inrange_def)
  have v: "toBigInt ?x = 1" "toBigInt ?y = 5" "toBigInt ?p = 3"
    by (rule toBigInt_small; simp add: MODULUS_eq)+
  have nz: "toBigInt ?p \<noteq> 0" by (simp add: v)
  note t = modMul_identity[OF r nz, unfolded v]
  have a: "\<exists>r. modMul ?p ?x ?y = Some r \<and> \<bar>toBigInt r\<bar> = 2"
    using t[THEN conjunct1] by auto
  have b: "multiply_constraints False (1 # replicate 17 0) (5 # replicate 17 0)
         (0 # replicate 17 0) (5 # replicate 17 0) (3 # replicate 17 0) = Some ()"
    using t[THEN conjunct2, THEN conjunct2, rule_format, OF o(1) o(3)] by simp
  have c: "multiply_constraints False (1 # replicate 17 0) (5 # replicate 17 0)
         (0 # replicate 17 0) (4 # replicate 17 0) (3 # replicate 17 0) \<noteq> Some ()"
    using t[THEN conjunct2, THEN conjunct2, rule_format, OF o(1) o(5)] by simp
  show ?thesis using r nz a b c o by blast
qed

theorem modMul_small_modulus_fails:
  "inrange Bigint2048_MAX \<and> inrange Bigint2048_ONE \<and> toBigInt Bigint2048_ONE \<noteq> 0
   \<and> modMul Bigint2048_ONE Bigint2048_MAX Bigint2048_MAX = None"
proof -
  have "2 \<le> BOUND - 1" by (simp add: BOUND_def)
  then have "(BOUND - 1) * 2 \<le> (BOUND - 1) * (BOUND - 1)"
    by (intro mult_left_mono) simp_all
  moreover have "BOUND \<le> (BOUND - 1) * 2" by (simp add: BOUND_def)
  ultimately have "BOUND \<le> \<bar>(BOUND - 1) * (BOUND - 1)\<bar> div \<bar>1\<bar>" by simp
  then have "modMul Bigint2048_ONE Bigint2048_MAX Bigint2048_MAX = None"
    unfolding modMul_eq[OF MAX_props(1) MAX_props(1) ONE_props(1)] MAX_props(2) ONE_props(2)
    by simp
  then show ?thesis by (simp add: MAX_props ONE_props)
qed

text \<open>
  C10: on values with limbs in range \<open>mul\<close> always returns; the sign bit of the result
  is the exclusive or of the operands' sign bits and its magnitude is
  \<open>(|a| * |b|) mod (2^2088 - 1)\<close>, so the result is the integer product exactly when
  \<open>|a| * |b| < 2^2088 - 1\<close>.
\<close>

theorem mul_wraps_mod_MAX:
  "inrange a \<Longrightarrow> inrange b \<Longrightarrow>
     (\<exists>m. mul a b = Some m \<and> inrange m \<and> negative m = (negative a \<noteq> negative b)
        \<and> \<bar>toBigInt m\<bar> = (\<bar>toBigInt a\<bar> * \<bar>toBigInt b\<bar>) mod (2 ^ 2088 - 1)
        \<and> (toBigInt m = toBigInt a * toBigInt b \<longleftrightarrow> \<bar>toBigInt a\<bar> * \<bar>toBigInt b\<bar> < 2 ^ 2088 - 1))"
proof -
  assume a: "inrange a" and b: "inrange b"
  define A where "A = limbs_val (fields' a)"
  define B where "B = limbs_val (fields' b)"
  define \<mu> where "\<mu> = (A * B) mod (BOUND - 1)"
  define m where "m = \<lparr>negative = (\<not> (negative a = negative b)), fields' = to_limbs LIMB_NUM \<mu>\<rparr>"
  have M: "0 < BOUND - 1" by (simp add: BOUND_def)
  have nn: "0 \<le> A" "0 \<le> B" "0 \<le> A * B"
    using limbs_val_nonneg a b by (simp_all add: A_def B_def)
  have mu: "0 \<le> \<mu>" "\<mu> < BOUND" "\<mu> < BOUND - 1"
  proof -
    show "0 \<le> \<mu>" unfolding \<mu>_def using M by simp
    show "\<mu> < BOUND - 1" unfolding \<mu>_def by (rule pos_mod_bound[OF M])
    then show "\<mu> < BOUND" by linarith
  qed
  have e: "mul a b = Some m"
    unfolding m_def \<mu>_def A_def B_def by (rule mul_eq[OF a b])
  have rm: "inrange m" unfolding m_def by (rule inrange_from)
  have lv: "limbs_val (to_limbs LIMB_NUM \<mu>) = \<mu>"
    using mu by (simp add: limbs_val_to_limbs BOUND_eq)
  have vm: "toBigInt m = (if negative a \<noteq> negative b then - \<mu> else \<mu>)"
    unfolding toBigInt_inrange[OF rm] by (simp add: m_def lv)
  have am: "\<bar>toBigInt m\<bar> = \<mu>" unfolding vm using mu by simp
  have pr: "toBigInt a * toBigInt b = (if negative a \<noteq> negative b then - (A * B) else A * B)"
    unfolding toBigInt_inrange[OF a] toBigInt_inrange[OF b] A_def B_def by simp
  have "\<mu> = A * B \<longleftrightarrow> A * B < BOUND - 1"
    using mu nn unfolding \<mu>_def by (auto simp add: mod_pos_pos_trivial)
  then have iff: "toBigInt m = toBigInt a * toBigInt b \<longleftrightarrow> A * B < BOUND - 1"
    unfolding vm pr by auto
  have ab: "\<bar>toBigInt a\<bar> = A" "\<bar>toBigInt b\<bar> = B"
    using abs_toBigInt a b by (simp_all add: A_def B_def)
  have "negative m = (negative a \<noteq> negative b)" by (simp add: m_def)
  then show ?thesis
    unfolding BOUND_def[symmetric] ab using e rm am iff \<mu>_def by blast
qed

theorem mul_wraps_mod_MAX_witness:
  "inrange Bigint2048_ONE \<and> inrange Bigint2048_MAX
   \<and> (\<exists>m. mul Bigint2048_ONE Bigint2048_MAX = Some m \<and> inrange m
          \<and> toBigInt m \<noteq> toBigInt Bigint2048_ONE * toBigInt Bigint2048_MAX)"
proof -
  note t = mul_wraps_mod_MAX[OF ONE_props(1) MAX_props(1)]
  have "\<not> \<bar>toBigInt Bigint2048_ONE\<bar> * \<bar>toBigInt Bigint2048_MAX\<bar> < 2 ^ 2088 - 1"
    by (simp add: ONE_props MAX_props BOUND_def)
  then show ?thesis using t ONE_props(1) MAX_props(1) by blast
qed


section \<open>Floor division\<close>

lemma floor_adjust:
  fixes a b :: int
  assumes "b \<noteq> 0"
  defines "tq \<equiv> bigint_div a b" and "tr \<equiv> bigint_rem a b"
  shows "(if tr \<noteq> 0 \<and> ((tr < 0) \<noteq> (b < 0)) then (tq - 1, tr + b) else (tq, tr))
           = (a div b, a mod b)"
proof -
  have tr: "tr = sgn a * (\<bar>a\<bar> mod \<bar>b\<bar>)" and e: "a = b * tq + tr"
    using bigint_div_rem[OF assms(1), of a] unfolding tq_def tr_def by (simp_all add: algebra_simps)
  have m: "0 \<le> \<bar>a\<bar> mod \<bar>b\<bar>" "\<bar>a\<bar> mod \<bar>b\<bar> < \<bar>b\<bar>" using assms(1) by simp_all
  have at: "\<bar>tr\<bar> < \<bar>b\<bar>"
    unfolding tr using m by (cases "a = 0") (simp_all add: abs_mult abs_sgn_eq)
  show ?thesis
  proof (cases "0 < b")
    case True
    show ?thesis
    proof (cases "tr < 0")
      case neg: True
      have "a = b * (tq - 1) + (tr + b)" using e by (simp add: algebra_simps)
      moreover have "0 \<le> tr + b" "tr + b < b" using neg at True by simp_all
      ultimately have "a div b = tq - 1" "a mod b = tr + b"
        using int_div_pos_eq int_mod_pos_eq by blast+
      then show ?thesis using neg True by simp
    next
      case nonneg: False
      have "0 \<le> tr" "tr < b" using nonneg at True by simp_all
      then have "a div b = tq" "a mod b = tr"
        using e int_div_pos_eq int_mod_pos_eq by blast+
      then show ?thesis using nonneg True by simp
    qed
  next
    case False
    then have b: "b < 0" using assms(1) by simp
    show ?thesis
    proof (cases "0 < tr")
      case pos: True
      have "a = b * (tq - 1) + (tr + b)" using e by (simp add: algebra_simps)
      moreover have "tr + b \<le> 0" "b < tr + b" using pos at b by simp_all
      ultimately have "a div b = tq - 1" "a mod b = tr + b"
        using int_div_neg_eq int_mod_neg_eq by blast+
      then show ?thesis using pos b by simp
    next
      case nonpos: False
      have "tr \<le> 0" "b < tr" using nonpos at b by simp_all
      then have "a div b = tq" "a mod b = tr"
        using e int_div_neg_eq int_mod_neg_eq by blast+
      then show ?thesis using nonpos b by auto
    qed
  qed
qed

lemma abs_floor_quotient_le:
  fixes a b :: int
  assumes "b \<noteq> 0"
  shows "\<bar>a div b\<bar> \<le> \<bar>a\<bar>"
proof (cases "a div b = 0")
  case True
  then show ?thesis by simp
next
  case False
  define q where "q = a div b"
  define r where "r = a mod b"
  have e: "b * q = a - r" unfolding q_def r_def by (simp add: minus_mod_eq_mult_div)
  have ar: "\<bar>r\<bar> < \<bar>b\<bar>" unfolding r_def using assms by (rule abs_mod_less)
  have "\<bar>b\<bar> * \<bar>q\<bar> = \<bar>a - r\<bar>" using e by (simp add: abs_mult[symmetric])
  also have "\<dots> \<le> \<bar>a\<bar> + \<bar>r\<bar>" by (rule abs_triangle_ineq4)
  finally have 1: "\<bar>b\<bar> * \<bar>q\<bar> < \<bar>a\<bar> + \<bar>b\<bar>" using ar by linarith
  have "1 * (\<bar>q\<bar> - 1) \<le> \<bar>b\<bar> * (\<bar>q\<bar> - 1)"
    using assms False by (intro mult_right_mono) (simp_all add: q_def)
  then have "\<bar>q\<bar> - 1 \<le> \<bar>b\<bar> * \<bar>q\<bar> - \<bar>b\<bar>" by (simp add: algebra_simps)
  then show ?thesis using 1 unfolding q_def by linarith
qed

lemma floorDiv_witness_eq:
  assumes "inrange a" "inrange b" "toBigInt b \<noteq> 0"
  shows "floorDiv_witness a b =
     Some (\<lparr>negative = toBigInt a div toBigInt b < 0,
             fields' = to_limbs LIMB_NUM \<bar>toBigInt a div toBigInt b\<bar>\<rparr>,
           \<lparr>negative = toBigInt a mod toBigInt b < 0,
             fields' = to_limbs LIMB_NUM \<bar>toBigInt a mod toBigInt b\<bar>\<rparr>)"
proof -
  define A where "A = toBigInt a"
  define B where "B = toBigInt b"
  have B: "B \<noteq> 0" using assms(3) by (simp add: B_def)
  have ab: "\<bar>A\<bar> < BOUND" "\<bar>B\<bar> < BOUND"
    using abs_toBigInt limbs_val_lt_BOUND assms(1,2) by (simp_all add: A_def B_def)
  have q: "\<bar>A div B\<bar> < BOUND" using abs_floor_quotient_le[OF B, of A] ab by linarith
  have r: "\<bar>A mod B\<bar> < BOUND" using abs_mod_less[OF B, of A] ab by linarith
  have "floorDiv_witness a b = witness_pair (A div B, A mod B)"
    unfolding floorDiv_witness_def Let_def A_def[symmetric] B_def[symmetric] floor_adjust[OF B]
    using B by simp
  then show ?thesis
    unfolding witness_pair_eq A_def[symmetric] B_def[symmetric] using q r by simp
qed


lemma negative_iff_neg_value:
  "inrange b \<Longrightarrow> toBigInt b \<noteq> 0 \<Longrightarrow> negative b \<longleftrightarrow> toBigInt b < 0"
  using limbs_val_nonneg[of b] by (auto simp add: toBigInt_inrange split: if_splits)

lemma signed_magnitude:
  fixes x y :: int
  assumes "\<bar>v\<bar> = \<bar>x * y\<bar>" "y \<noteq> 0" "v = (if (x < 0) \<noteq> (y < 0) then - \<bar>v\<bar> else \<bar>v\<bar>)"
  shows "v = x * y"
proof (cases "x = 0")
  case True
  then show ?thesis using assms(1) by simp
next
  case False
  show ?thesis
  proof (cases "(x < 0) \<noteq> (y < 0)")
    case True
    then have "x * y < 0" using False assms(2) by (auto simp add: mult_less_0_iff)
    then show ?thesis using assms(1,3) True by simp
  next
    case same: False
    then have "0 < x * y" using False assms(2) by (auto simp add: zero_less_mult_iff)
    then show ?thesis using assms(1,3) same by simp
  qed
qed

lemma mod_sign_divisor:
  fixes a b :: int
  assumes "b \<noteq> 0" "a mod b \<noteq> 0"
  shows "a mod b < 0 \<longleftrightarrow> b < 0"
proof (cases "0 < b")
  case True
  then have "0 \<le> a mod b" by simp
  then show ?thesis using True by linarith
next
  case False
  then have b: "b < 0" using assms(1) by simp
  then have "a mod b \<le> 0" by simp
  then show ?thesis using b assms(2) by linarith
qed

lemma assertLessThan_abs:
  assumes "inrange r" "inrange b" "\<bar>toBigInt r\<bar> < \<bar>toBigInt b\<bar>"
  shows "assertLessThan (abs_big r) (abs_big b) = Some ()"
proof -
  have "limbs_val (fields' r) < limbs_val (fields' b)"
    using assms(3) unfolding abs_toBigInt[OF assms(1)] abs_toBigInt[OF assms(2)] .
  then have "compare3 (toBigInt (abs_big r)) (toBigInt (abs_big b)) = Less"
    unfolding toBigInt_abs_big[OF assms(1)] toBigInt_abs_big[OF assms(2)]
    by (simp add: compare3_def)
  then show ?thesis
    using assms(1,2) by (simp add: assertLessThan_def cmp_eq assertTrue_def Field_equals_def)
qed


lemma floorDiv_body:
  assumes "\<not> equals b Bigint2048_ZERO" "floorDiv_witness a b = Some (fq, fr)"
    "mul b fq = Some yq" "assertLessThan (abs_big fr) (abs_big b) = Some ()"
    "equals fr Bigint2048_ZERO \<or> negative fr = negative b"
  shows "floorDiv a b = (case add yq fr of None \<Rightarrow> None
      | Some s \<Rightarrow> if equals s a then Some \<lparr>quot = fq, rem = fr\<rparr> else None)"
  using assms(1,5)
  by (simp add: floorDiv_def assertNotEquals_def assertFalse_def assms(2,3,4) assertEquals_def
      assertTrue_def split: option.splits)

lemma toBigInt_signed:
  assumes "inrange y"
  shows "toBigInt y = (if negative y then - \<bar>toBigInt y\<bar> else \<bar>toBigInt y\<bar>)"
  unfolding abs_toBigInt[OF assms] by (rule toBigInt_inrange[OF assms])

lemma floorDiv_eq:
  assumes "inrange a" "inrange b"
  defines "A \<equiv> toBigInt a" and "B \<equiv> toBigInt b"
  shows "floorDiv a b =
     (if B \<noteq> 0 \<and> \<bar>B * (A div B)\<bar> < BOUND - 1 \<and> \<bar>B * (A div B)\<bar> + \<bar>A mod B\<bar> < BOUND
      then Some \<lparr>quot = \<lparr>negative = A div B < 0, fields' = to_limbs LIMB_NUM \<bar>A div B\<bar>\<rparr>,
                 rem = \<lparr>negative = A mod B < 0, fields' = to_limbs LIMB_NUM \<bar>A mod B\<bar>\<rparr>\<rparr>
      else None)"
proof (cases "B = 0")
  case True
  then have "equals b Bigint2048_ZERO"
    using equals_iff[OF assms(2) ZERO_props(1)] by (simp add: ZERO_props B_def)
  then show ?thesis using True by (simp add: floorDiv_def assertNotEquals_def assertFalse_def)
next
  case False
  define q where "q = A div B"
  define r where "r = A mod B"
  define fq where "fq = \<lparr>negative = q < 0, fields' = to_limbs LIMB_NUM \<bar>q\<bar>\<rparr>"
  define fr where "fr = \<lparr>negative = r < 0, fields' = to_limbs LIMB_NUM \<bar>r\<bar>\<rparr>"
  define \<mu> where "\<mu> = (\<bar>B\<bar> * \<bar>q\<bar>) mod (BOUND - 1)"
  define yq where "yq = \<lparr>negative = (\<not> (negative b = negative fq)), fields' = to_limbs LIMB_NUM \<mu>\<rparr>"
  have M: "0 < BOUND - 1" by (simp add: BOUND_def)
  have ab: "\<bar>A\<bar> < BOUND" "\<bar>B\<bar> < BOUND"
    unfolding A_def B_def abs_toBigInt[OF assms(1)] abs_toBigInt[OF assms(2)]
    by (rule limbs_val_lt_BOUND[OF assms(1)], rule limbs_val_lt_BOUND[OF assms(2)])
  have qb: "\<bar>q\<bar> < BOUND" using abs_floor_quotient_le[OF False, of A] ab unfolding q_def by linarith
  have rB: "\<bar>r\<bar> < \<bar>B\<bar>" unfolding r_def using False by (rule abs_mod_less)
  have rb: "\<bar>r\<bar> < BOUND" using rB ab by linarith
  have rq: "inrange fq" and rr: "inrange fr" and ry: "inrange yq"
    unfolding fq_def fr_def yq_def by (rule inrange_from)+
  have vq: "toBigInt fq = q" and vr: "toBigInt fr = r"
    unfolding fq_def fr_def by (rule toBigInt_from[OF qb], rule toBigInt_from[OF rb])
  have ne: "\<not> equals b Bigint2048_ZERO"
    unfolding equals_iff[OF assms(2) ZERO_props(1)] ZERO_props(2) using False by (simp add: B_def)
  have w: "floorDiv_witness a b = Some (fq, fr)"
    unfolding fq_def fr_def q_def r_def A_def B_def
    by (rule floorDiv_witness_eq[OF assms(1,2) False[unfolded B_def]])
  have lb: "limbs_val (fields' b) = \<bar>B\<bar>"
    unfolding B_def by (rule abs_toBigInt[OF assms(2), symmetric])
  have lq: "limbs_val (fields' fq) = \<bar>q\<bar>"
    unfolding vq[symmetric] by (rule abs_toBigInt[OF rq, symmetric])
  have m: "mul b fq = Some yq"
    unfolding mul_eq[OF assms(2) rq] yq_def \<mu>_def lb lq ..
  have mu: "0 \<le> \<mu>" "\<mu> < BOUND - 1"
    unfolding \<mu>_def using M by simp_all
  have mu': "\<mu> < BOUND" using mu by linarith
  have ay: "\<bar>toBigInt yq\<bar> = \<mu>"
    unfolding yq_def by (rule abs_toBigInt_from[OF mu(1) mu'])
  have lt: "assertLessThan (abs_big fr) (abs_big b) = Some ()"
    by (rule assertLessThan_abs[OF rr assms(2)]) (simp add: vr B_def[symmetric] rB)
  have sg: "equals fr Bigint2048_ZERO \<or> negative fr = negative b"
  proof (cases "r = 0")
    case True
    then show ?thesis unfolding equals_iff[OF rr ZERO_props(1)] vr ZERO_props(2) by simp
  next
    case nz: False
    have "r < 0 \<longleftrightarrow> B < 0"
      unfolding r_def by (rule mod_sign_divisor[OF False nz[unfolded r_def]])
    moreover have "negative b \<longleftrightarrow> B < 0"
      unfolding B_def by (rule negative_iff_neg_value[OF assms(2) False[unfolded B_def]])
    ultimately show ?thesis by (simp add: fr_def)
  qed
  note body = floorDiv_body[OF ne w m lt sg]
  have ny: "negative yq = ((q < 0) \<noteq> (B < 0))"
    using negative_iff_neg_value[OF assms(2) False[unfolded B_def]]
    by (auto simp add: yq_def fq_def B_def)
  have sy: "toBigInt yq = (if (q < 0) \<noteq> (B < 0) then - \<bar>toBigInt yq\<bar> else \<bar>toBigInt yq\<bar>)"
    unfolding ny[symmetric] by (rule toBigInt_signed[OF ry])
  have e: "A = q * B + r" unfolding q_def r_def by simp
  show ?thesis
  proof (cases "\<bar>q * B\<bar> < BOUND - 1")
    case small: True
    have "\<mu> = \<bar>q * B\<bar>"
      unfolding \<mu>_def abs_mult[symmetric] using small
      by (simp add: mod_pos_pos_trivial mult.commute)
    then have "\<bar>toBigInt yq\<bar> = \<bar>q * B\<bar>" using ay by simp
    then have vy: "toBigInt yq = q * B"
      using False sy by (rule signed_magnitude)
    have ad: "(\<exists>s. add yq fr = Some s) \<longleftrightarrow> \<bar>q * B\<bar> + \<bar>r\<bar> < BOUND"
      unfolding add_Some_iff[OF ry rr] vy vr ..
    show ?thesis
    proof (cases "\<bar>q * B\<bar> + \<bar>r\<bar> < BOUND")
      case True
      then obtain s where s: "add yq fr = Some s" using ad by blast
      have "inrange s \<and> toBigInt s = toBigInt yq + toBigInt fr"
        by (rule add_value[OF ry rr s])
      then have "inrange s" "toBigInt s = toBigInt a"
        unfolding vy vr e[symmetric] A_def by simp_all
      then have "equals s a"
        using equals_iff[OF _ assms(1)] by simp
      then have "floorDiv a b = Some \<lparr>quot = fq, rem = fr\<rparr>"
        unfolding body s by simp
      then show ?thesis
        using small True False
        by (simp add: q_def[symmetric] r_def[symmetric] fq_def fr_def mult.commute)
    next
      case nofit: False
      then have "add yq fr = None" using ad by (cases "add yq fr") auto
      then have "floorDiv a b = None" unfolding body by simp
      then show ?thesis
        using nofit by (simp add: q_def[symmetric] r_def[symmetric] mult.commute)
    qed
  next
    case big: False
    have "floorDiv a b = None"
    proof (cases "add yq fr")
      case None
      then show ?thesis unfolding body by simp
    next
      case (Some s)
      have v: "inrange s" "toBigInt s = toBigInt yq + r"
        using add_value[OF ry rr Some] vr by simp_all
      have "\<bar>toBigInt yq\<bar> < \<bar>q * B\<bar>" using ay mu big by linarith
      then have "toBigInt yq \<noteq> q * B" by auto
      then have "toBigInt s \<noteq> toBigInt a" unfolding v(2) A_def[symmetric] e by simp
      then have "\<not> equals s a" unfolding equals_iff[OF v(1) assms(1)] .
      then show ?thesis unfolding body Some by simp
    qed
    then show ?thesis
      using big by (simp add: q_def[symmetric] mult.commute)
  qed
qed


text \<open>
  C4, as the code has it: \<open>floorDiv\<close> checks \<open>y*q + r = x\<close> with \<open>mul\<close>, which wraps modulo
  \<open>2^2088 - 1\<close>, and with \<open>add\<close>, which refuses a magnitude sum of \<open>2^2088\<close> or more. On
  values with limbs in range, with \<open>q\<close> and \<open>r\<close> the floor quotient and remainder of \<open>a\<close>
  by \<open>b\<close>, \<open>a.floorDiv(b)\<close> returns exactly when \<open>b\<close> is not zero, \<open>|b*q| < 2^2088 - 1\<close> and
  \<open>|b*q| + |r| < 2^2088\<close>; it then returns \<open>Bigint2048.from(q)\<close> and \<open>Bigint2048.from(r)\<close>,
  which satisfy \<open>b*q + r = a\<close>, \<open>|r| < |b|\<close> and \<open>r = 0\<close> or \<open>sign(r) = sign(b)\<close>. A zero
  divisor fails the first assertion.
\<close>

theorem floorDiv_contract:
  "inrange a \<Longrightarrow> inrange b \<Longrightarrow>
     ((\<exists>d. floorDiv a b = Some d) \<longleftrightarrow>
        toBigInt b \<noteq> 0
        \<and> \<bar>toBigInt b * (toBigInt a div toBigInt b)\<bar> < 2 ^ 2088 - 1
        \<and> \<bar>toBigInt b * (toBigInt a div toBigInt b)\<bar> + \<bar>toBigInt a mod toBigInt b\<bar> < 2 ^ 2088)
     \<and> (\<forall>d. floorDiv a b = Some d \<longrightarrow>
            Bigint2048_from (toBigInt a div toBigInt b) = Some (quot d)
            \<and> Bigint2048_from (toBigInt a mod toBigInt b) = Some (rem d)
            \<and> inrange (quot d) \<and> inrange (rem d)
            \<and> toBigInt (quot d) = toBigInt a div toBigInt b
            \<and> toBigInt (rem d) = toBigInt a mod toBigInt b
            \<and> toBigInt b * toBigInt (quot d) + toBigInt (rem d) = toBigInt a
            \<and> \<bar>toBigInt (rem d)\<bar> < \<bar>toBigInt b\<bar>
            \<and> (toBigInt (rem d) = 0 \<or> (toBigInt (rem d) < 0 \<longleftrightarrow> toBigInt b < 0)))
     \<and> (equals b Bigint2048_ZERO \<longrightarrow> floorDiv a b = None)"
proof -
  assume a: "inrange a" and b: "inrange b"
  define A where "A = toBigInt a"
  define B where "B = toBigInt b"
  define q where "q = A div B"
  define r where "r = A mod B"
  define fq where "fq = \<lparr>negative = q < 0, fields' = to_limbs LIMB_NUM \<bar>q\<bar>\<rparr>"
  define fr where "fr = \<lparr>negative = r < 0, fields' = to_limbs LIMB_NUM \<bar>r\<bar>\<rparr>"
  define good where "good \<longleftrightarrow> B \<noteq> 0 \<and> \<bar>B * q\<bar> < BOUND - 1 \<and> \<bar>B * q\<bar> + \<bar>r\<bar> < BOUND"
  have e: "floorDiv a b = (if good then Some \<lparr>quot = fq, rem = fr\<rparr> else None)"
    unfolding floorDiv_eq[OF a b] good_def fq_def fr_def q_def r_def A_def B_def ..
  have 1: "(\<exists>d. floorDiv a b = Some d) \<longleftrightarrow> good" unfolding e by simp
  have 2: "Bigint2048_from q = Some (quot d) \<and> Bigint2048_from r = Some (rem d)
      \<and> inrange (quot d) \<and> inrange (rem d) \<and> toBigInt (quot d) = q \<and> toBigInt (rem d) = r
      \<and> B * toBigInt (quot d) + toBigInt (rem d) = A \<and> \<bar>toBigInt (rem d)\<bar> < \<bar>B\<bar>
      \<and> (toBigInt (rem d) = 0 \<or> (toBigInt (rem d) < 0 \<longleftrightarrow> B < 0))"
    if d: "floorDiv a b = Some d" for d
  proof -
    have g: good and dd: "d = \<lparr>quot = fq, rem = fr\<rparr>"
      using d unfolding e by (simp_all split: if_splits)
    have B: "B \<noteq> 0" using g by (simp add: good_def)
    have ab: "\<bar>A\<bar> < BOUND" "\<bar>B\<bar> < BOUND"
      unfolding A_def B_def abs_toBigInt[OF a] abs_toBigInt[OF b]
      by (rule limbs_val_lt_BOUND[OF a], rule limbs_val_lt_BOUND[OF b])
    have qb: "\<bar>q\<bar> < BOUND"
      using abs_floor_quotient_le[OF B, of A] ab unfolding q_def by linarith
    have rB: "\<bar>r\<bar> < \<bar>B\<bar>" unfolding r_def using B by (rule abs_mod_less)
    have rb: "\<bar>r\<bar> < BOUND" using rB ab by linarith
    have f: "Bigint2048_from q = Some fq" "Bigint2048_from r = Some fr"
      unfolding fq_def fr_def by (rule Bigint2048_from_Some[OF qb], rule Bigint2048_from_Some[OF rb])
    have v: "toBigInt fq = q" "toBigInt fr = r"
      unfolding fq_def fr_def by (rule toBigInt_from[OF qb], rule toBigInt_from[OF rb])
    have i: "inrange fq" "inrange fr" unfolding fq_def fr_def by (rule inrange_from)+
    have s: "r = 0 \<or> (r < 0 \<longleftrightarrow> B < 0)"
      unfolding r_def using mod_sign_divisor[OF B, of A] by blast
    have id: "B * q + r = A" unfolding q_def r_def by simp
    show ?thesis unfolding dd using f v i s id rB by simp
  qed
  have 3: "floorDiv a b = None" if "equals b Bigint2048_ZERO"
  proof -
    have "B = 0" using that unfolding equals_iff[OF b ZERO_props(1)] ZERO_props(2) B_def .
    then show ?thesis unfolding e good_def by simp
  qed
  show ?thesis
    unfolding BOUND_def[symmetric] A_def[symmetric] B_def[symmetric] q_def[symmetric] r_def[symmetric]
    using 1[unfolded good_def] 2 3 by blast
qed

theorem floorDiv_contract_witness:
  "inrange \<lparr>negative = True, fields' = 7 # replicate 17 0\<rparr>
   \<and> inrange \<lparr>negative = False, fields' = 3 # replicate 17 0\<rparr>
   \<and> (\<exists>d. floorDiv \<lparr>negative = True, fields' = 7 # replicate 17 0\<rparr>
               \<lparr>negative = False, fields' = 3 # replicate 17 0\<rparr> = Some d
          \<and> toBigInt (quot d) = - 3 \<and> toBigInt (rem d) = 2)"
proof -
  let ?a = "\<lparr>negative = True, fields' = 7 # replicate 17 0\<rparr>"
  let ?b = "\<lparr>negative = False, fields' = 3 # replicate 17 0\<rparr>"
  have o: "limbs_ok (7 # replicate 17 0)" "limbs_ok (3 # replicate 17 0)"
    by (rule limbs_ok_small; simp add: MODULUS_eq)+
  have r: "inrange ?a" "inrange ?b" using o by (simp_all add: inrange_def)
  have v: "toBigInt ?a = - 7" "toBigInt ?b = 3"
    by (simp_all add: toBigInt_inrange r)
  note t = floorDiv_contract[OF r, unfolded v]
  have "\<exists>d. floorDiv ?a ?b = Some d" using t[THEN conjunct1] by simp
  then obtain d where d: "floorDiv ?a ?b = Some d" by blast
  have "toBigInt (quot d) = - 3 \<and> toBigInt (rem d) = 2"
    using t[THEN conjunct2, THEN conjunct1, rule_format, OF d] by simp
  then show ?thesis using r d by blast
qed

theorem floorDiv_MAX_by_ONE_fails:
  "inrange Bigint2048_MAX \<and> inrange Bigint2048_ONE \<and> toBigInt Bigint2048_ONE \<noteq> 0
   \<and> \<not> equals Bigint2048_ONE Bigint2048_ZERO
   \<and> floorDiv Bigint2048_MAX Bigint2048_ONE = None"
proof -
  have "floorDiv Bigint2048_MAX Bigint2048_ONE = None"
    unfolding floorDiv_eq[OF MAX_props(1) ONE_props(1)] MAX_props(2) ONE_props(2) by simp
  moreover have "\<not> equals Bigint2048_ONE Bigint2048_ZERO"
    unfolding equals_iff[OF ONE_props(1) ZERO_props(1)] ONE_props(2) ZERO_props(2) by simp
  ultimately show ?thesis using MAX_props(1) ONE_props(1,2) by simp
qed


section \<open>The GCD step relation\<close>

lemma floorDiv_Some_rem:
  assumes "inrange a" "inrange b" "floorDiv a b = Some d"
  shows "toBigInt b \<noteq> 0" "inrange (rem d)" "toBigInt (rem d) = toBigInt a mod toBigInt b"
proof -
  define r where "r = toBigInt a mod toBigInt b"
  have nz: "toBigInt b \<noteq> 0"
    and d: "rem d = \<lparr>negative = r < 0, fields' = to_limbs LIMB_NUM \<bar>r\<bar>\<rparr>"
    using assms(3) unfolding floorDiv_eq[OF assms(1,2)] r_def by (auto split: if_splits)
  have "\<bar>r\<bar> < \<bar>toBigInt b\<bar>" unfolding r_def using nz by (rule abs_mod_less)
  moreover have "\<bar>toBigInt b\<bar> < BOUND"
    unfolding abs_toBigInt[OF assms(2)] by (rule limbs_val_lt_BOUND[OF assms(2)])
  ultimately have rb: "\<bar>r\<bar> < BOUND" by linarith
  show "toBigInt b \<noteq> 0" by (rule nz)
  show "inrange (rem d)" unfolding d by (rule inrange_from)
  show "toBigInt (rem d) = toBigInt a mod toBigInt b"
    unfolding d r_def[symmetric] by (rule toBigInt_from[OF rb])
qed

lemma euclid_divisor_eq:
  assumes "inrange (g_1 cur)"
  shows "euclid_divisor cur = (if toBigInt (g_1 cur) = 0 then Bigint2048_ONE else g_1 cur)"
  unfolding euclid_divisor_def Provable_if_def equals_iff[OF assms ZERO_props(1)] ZERO_props(2) ..

lemma euclid_divisor_props:
  assumes "inrange (g_1 cur)"
  shows "inrange (euclid_divisor cur)"
    and "toBigInt (euclid_divisor cur) = (if toBigInt (g_1 cur) = 0 then 1 else toBigInt (g_1 cur))"
    and "\<not> equals (euclid_divisor cur) Bigint2048_ZERO"
proof -
  show r: "inrange (euclid_divisor cur)"
    unfolding euclid_divisor_eq[OF assms] using assms ONE_props(1) by simp
  show v: "toBigInt (euclid_divisor cur) = (if toBigInt (g_1 cur) = 0 then 1 else toBigInt (g_1 cur))"
    unfolding euclid_divisor_eq[OF assms] using ONE_props(2) by simp
  show "\<not> equals (euclid_divisor cur) Bigint2048_ZERO"
    unfolding equals_iff[OF r ZERO_props(1)] ZERO_props(2) v by simp
qed

lemma euclid_iteration_eq:
  assumes "inrange (g_1 cur)"
  shows "euclid_iteration i cur =
     (case floorDiv (g_0 cur) (euclid_divisor cur) of None \<Rightarrow> None
      | Some d \<Rightarrow> Some (if toBigInt (g_1 cur) = 0 then cur
                        else \<lparr>g_0 = g_1 cur, g_1 = rem d\<rparr>))"
  unfolding euclid_iteration_def Let_def Provable_if_def equals_iff[OF assms ZERO_props(1)]
    ZERO_props(2)
  by (cases "floorDiv (g_0 cur) (euclid_divisor cur)") simp_all

lemma euclid_iteration_nonneg_Some:
  assumes "nonneg_pair cur" "euclid_iteration i cur = Some cur'"
  shows "nonneg_pair cur' \<and> pair_val cur' = euclid_step (pair_val cur)"
proof -
  have r: "inrange (g_0 cur)" "inrange (g_1 cur)" and nn: "0 \<le> toBigInt (g_0 cur)" "0 \<le> toBigInt (g_1 cur)"
    using assms(1) by (simp_all add: nonneg_pair_def)
  note dv = euclid_divisor_props[OF r(2)]
  obtain d where d: "floorDiv (g_0 cur) (euclid_divisor cur) = Some d"
    and c: "cur' = (if toBigInt (g_1 cur) = 0 then cur else \<lparr>g_0 = g_1 cur, g_1 = rem d\<rparr>)"
    using assms(2) unfolding euclid_iteration_eq[OF r(2)] by (auto split: option.splits)
  show ?thesis
  proof (cases "toBigInt (g_1 cur) = 0")
    case True
    then show ?thesis using c assms(1) by (simp add: pair_val_def euclid_step_def)
  next
    case False
    have p: "0 < toBigInt (g_1 cur)" using False nn by simp
    have "inrange (rem d)" "toBigInt (rem d) = toBigInt (g_0 cur) mod toBigInt (euclid_divisor cur)"
      by (rule floorDiv_Some_rem[OF r(1) dv(1) d])+
    then have "inrange (rem d)" "toBigInt (rem d) = toBigInt (g_0 cur) mod toBigInt (g_1 cur)"
      unfolding dv(2) using False by simp_all
    moreover have "0 \<le> toBigInt (g_0 cur) mod toBigInt (g_1 cur)" using p by simp
    ultimately show ?thesis
      using c False r nn by (simp add: nonneg_pair_def pair_val_def euclid_step_def)
  qed
qed

lemma euclid_iteration_nonneg_total:
  assumes "nonneg_pair cur" "toBigInt (g_0 cur) < BOUND - 1"
  shows "\<exists>cur'. euclid_iteration i cur = Some cur'"
proof -
  have r: "inrange (g_0 cur)" "inrange (g_1 cur)" and nn: "0 \<le> toBigInt (g_0 cur)" "0 \<le> toBigInt (g_1 cur)"
    using assms(1) by (simp_all add: nonneg_pair_def)
  note dv = euclid_divisor_props[OF r(2)]
  define A where "A = toBigInt (g_0 cur)"
  define D where "D = toBigInt (euclid_divisor cur)"
  have D: "0 < D" unfolding D_def dv(2) using nn by simp
  have q: "0 \<le> A div D" using D nn by (simp add: A_def pos_imp_zdiv_nonneg_iff)
  have m: "0 \<le> A mod D" using D by simp
  have e: "D * (A div D) + A mod D = A" by simp
  have "0 \<le> D * (A div D)" using D q by simp
  then have "\<bar>D * (A div D)\<bar> + \<bar>A mod D\<bar> = A" using m e by linarith
  moreover have "\<bar>D * (A div D)\<bar> \<le> \<bar>D * (A div D)\<bar> + \<bar>A mod D\<bar>" by simp
  ultimately have "\<bar>D * (A div D)\<bar> < BOUND - 1" "\<bar>D * (A div D)\<bar> + \<bar>A mod D\<bar> < BOUND"
    using assms(2) unfolding A_def by linarith+
  then have "\<exists>d. floorDiv (g_0 cur) (euclid_divisor cur) = Some d"
    unfolding floorDiv_eq[OF r(1) dv(1)] A_def D_def using D[unfolded D_def] by simp
  then show ?thesis
    unfolding euclid_iteration_eq[OF r(2)] by auto
qed


lemma forM_invariant:
  assumes "\<And>i s s'. I s \<Longrightarrow> body i s = Some s' \<Longrightarrow> I s'" "I s" "forM is body s = Some s'"
  shows "I s'"
  using assms(2,3)
proof (induction "is" arbitrary: s)
  case Nil
  then show ?case by simp
next
  case (Cons i "is")
  then obtain t where t: "body i s = Some t" and r: "forM is body t = Some s'"
    by (auto split: option.splits)
  show ?case by (rule Cons.IH[OF assms(1)[OF Cons.prems(1) t] r])
qed

lemma forM_total:
  assumes "\<And>i s. I s \<Longrightarrow> \<exists>s'. body i s = Some s' \<and> I s'" "I s"
  shows "\<exists>s'. forM is body s = Some s' \<and> I s'"
  using assms(2)
proof (induction "is" arbitrary: s)
  case Nil
  then show ?case by simp
next
  case (Cons i "is")
  obtain t where t: "body i s = Some t" "I t" using assms(1)[OF Cons.prems] by blast
  show ?case using Cons.IH[OF t(2)] t(1) by simp
qed

lemma euclid_step_props:
  assumes "0 \<le> fst v" "0 \<le> snd v"
  shows "0 \<le> fst (euclid_step v)" "0 \<le> snd (euclid_step v)"
    "gcd (fst (euclid_step v)) (snd (euclid_step v)) = gcd (fst v) (snd v)"
    "snd (euclid_step v) \<le> snd v"
    "snd v \<noteq> 0 \<Longrightarrow> snd (euclid_step v) < snd v"
    "fst v < m \<Longrightarrow> snd v < m \<Longrightarrow> fst (euclid_step v) < m \<and> snd (euclid_step v) < m"
proof -
  have p: "snd v \<noteq> 0 \<Longrightarrow> 0 < snd v" using assms(2) by simp
  show "0 \<le> fst (euclid_step v)" "0 \<le> snd (euclid_step v)"
    using assms p by (simp_all add: euclid_step_def)
  show "gcd (fst (euclid_step v)) (snd (euclid_step v)) = gcd (fst v) (snd v)"
    by (simp add: euclid_step_def gcd_red_int[of "fst v" "snd v"])
  have lt: "snd v \<noteq> 0 \<Longrightarrow> fst v mod snd v < snd v" using p by simp
  show "snd (euclid_step v) \<le> snd v"
    using lt by (cases "snd v = 0") (simp_all add: euclid_step_def)
  show "snd v \<noteq> 0 \<Longrightarrow> snd (euclid_step v) < snd v"
    using lt by (simp add: euclid_step_def)
  show "fst (euclid_step v) < m \<and> snd (euclid_step v) < m" if "fst v < m" "snd v < m"
  proof (cases "snd v = 0")
    case True
    then show ?thesis using that by (simp add: euclid_step_def)
  next
    case False
    then have "fst v mod snd v < m" using lt that(2) by linarith
    then show ?thesis using False that(2) by (simp add: euclid_step_def)
  qed
qed

text \<open>
  What every successful run of \<open>euclidGcd\<close> on a non-negative pair keeps: the values
  stay non-negative with limbs in range, their greatest common divisor is the same,
  the second component does not grow, and both stay below any bound they were below.
\<close>

lemma euclidGcd_nonneg_Some:
  assumes "nonneg_pair p" "euclidGcd p = Some p'"
  shows "nonneg_pair p'"
    and "gcd (fst (pair_val p')) (snd (pair_val p')) = gcd (fst (pair_val p)) (snd (pair_val p))"
    and "snd (pair_val p') \<le> snd (pair_val p)"
proof -
  define I where "I = (\<lambda>s. nonneg_pair s
     \<and> gcd (fst (pair_val s)) (snd (pair_val s)) = gcd (fst (pair_val p)) (snd (pair_val p))
     \<and> snd (pair_val s) \<le> snd (pair_val p))"
  have step: "I s'" if "I s" "euclid_iteration i s = Some s'" for i s s'
  proof -
    have n: "nonneg_pair s" using that(1) by (simp add: I_def)
    have v: "0 \<le> fst (pair_val s)" "0 \<le> snd (pair_val s)"
      using n by (simp_all add: nonneg_pair_def pair_val_def)
    note e = euclid_iteration_nonneg_Some[OF n that(2)]
    show ?thesis
      using that(1) e euclid_step_props(3,4)[OF v] by (simp add: I_def)
  qed
  have "I p'"
  proof (rule forM_invariant[where body = euclid_iteration and I = I])
    show "I s'" if "I s" "euclid_iteration i s = Some s'" for i s s'
      using that by (rule step)
    show "I p" using assms(1) by (simp add: I_def)
    show "forM [0..<GCD_ITERATIONS_PER_PROOF] euclid_iteration p = Some p'"
      using assms(2) unfolding euclidGcd_def .
  qed
  then show "nonneg_pair p'"
    and "gcd (fst (pair_val p')) (snd (pair_val p')) = gcd (fst (pair_val p)) (snd (pair_val p))"
    and "snd (pair_val p') \<le> snd (pair_val p)"
    by (simp_all add: I_def)
qed

lemma euclidGcd_nonneg_total:
  assumes "nonneg_pair p" "fst (pair_val p) < BOUND - 1" "snd (pair_val p) < BOUND - 1"
  shows "\<exists>p'. euclidGcd p = Some p' \<and> fst (pair_val p') < BOUND - 1 \<and> snd (pair_val p') < BOUND - 1"
proof -
  define I where "I = (\<lambda>s. nonneg_pair s \<and> fst (pair_val s) < BOUND - 1 \<and> snd (pair_val s) < BOUND - 1)"
  have step: "\<exists>s'. euclid_iteration i s = Some s' \<and> I s'" if "I s" for i s
  proof -
    have n: "nonneg_pair s" and b: "fst (pair_val s) < BOUND - 1" "snd (pair_val s) < BOUND - 1"
      using that by (simp_all add: I_def)
    have v: "0 \<le> fst (pair_val s)" "0 \<le> snd (pair_val s)"
      using n by (simp_all add: nonneg_pair_def pair_val_def)
    obtain s' where s': "euclid_iteration i s = Some s'"
      using euclid_iteration_nonneg_total[OF n] b(1) by (auto simp add: pair_val_def)
    note e = euclid_iteration_nonneg_Some[OF n s']
    have "I s'"
      using e euclid_step_props(6)[OF v b] by (simp add: I_def)
    then show ?thesis using s' by blast
  qed
  have "\<exists>p'. forM [0..<GCD_ITERATIONS_PER_PROOF] euclid_iteration p = Some p' \<and> I p'"
  proof (rule forM_total[where body = euclid_iteration and I = I])
    show "\<exists>s'. euclid_iteration i s = Some s' \<and> I s'" if "I s" for i s
      using that by (rule step)
    show "I p" using assms by (simp add: I_def)
  qed
  then show ?thesis by (auto simp add: euclidGcd_def I_def)
qed


lemma forM_Cons_bind: "forM (i # is) body s = body i s \<bind> forM is body"
  by (cases "body i s") simp_all

lemma upt_9: "[0..<9] = [0, 1, 2, 3, 4, 5, 6, 7, 8]"
  by (simp add: upt_rec)

lemma euclidGcd_unrolled:
  "euclidGcd cur = do {
     c1 \<leftarrow> euclid_iteration 0 cur;
     c2 \<leftarrow> euclid_iteration 1 c1;
     c3 \<leftarrow> euclid_iteration 2 c2;
     c4 \<leftarrow> euclid_iteration 3 c3;
     c5 \<leftarrow> euclid_iteration 4 c4;
     c6 \<leftarrow> euclid_iteration 5 c5;
     c7 \<leftarrow> euclid_iteration 6 c6;
     c8 \<leftarrow> euclid_iteration 7 c7;
     euclid_iteration 8 c8
   }"
proof -
  have e: "forM [i] body = body i" for i and body :: "nat \<Rightarrow> GcdPair \<Rightarrow> GcdPair option"
  proof
    fix s show "forM [i] body s = body i s" by (cases "body i s") simp_all
  qed
  have c: "forM (i # j # js) body = (\<lambda>s. body i s \<bind> forM (j # js) body)"
    for i j js and body :: "nat \<Rightarrow> GcdPair \<Rightarrow> GcdPair option"
  proof
    fix s show "forM (i # j # js) body s = body i s \<bind> forM (j # js) body"
      by (rule forM_Cons_bind)
  qed
  show ?thesis
    unfolding euclidGcd_def GCD_ITERATIONS_PER_PROOF_def upt_9
    by (simp only: c e)
qed

text \<open>
  C2, as the code has it: \<open>euclidGcd\<close> is nine iterations, each of which first runs
  \<open>floorDiv\<close> of \<open>g_0\<close> by the divisor \<open>1\<close> when \<open>g_1\<close> equals zero and by \<open>g_1\<close> otherwise, a
  divisor that never equals zero. The assertions of that division are not selected
  away: the iteration fails exactly when the division fails, also when \<open>g_1\<close> is zero.
  When the division returns, the iteration leaves the pair unchanged if \<open>g_1\<close> equals
  zero and otherwise yields \<open>(g_1, g_0 mod g_1)\<close> with the floor remainder. For
  \<open>0 \<le> g_0 < 2^2088 - 1\<close> and \<open>0 \<le> g_1\<close> the division returns.
\<close>

theorem euclidGcd_nine_steps:
  "inrange (g_0 cur) \<Longrightarrow> inrange (g_1 cur) \<Longrightarrow>
     euclidGcd cur = do {
         c1 \<leftarrow> euclid_iteration 0 cur;
         c2 \<leftarrow> euclid_iteration 1 c1;
         c3 \<leftarrow> euclid_iteration 2 c2;
         c4 \<leftarrow> euclid_iteration 3 c3;
         c5 \<leftarrow> euclid_iteration 4 c4;
         c6 \<leftarrow> euclid_iteration 5 c5;
         c7 \<leftarrow> euclid_iteration 6 c6;
         c8 \<leftarrow> euclid_iteration 7 c7;
         euclid_iteration 8 c8
       }
     \<and> euclid_divisor cur = (if equals (g_1 cur) Bigint2048_ZERO then Bigint2048_ONE else g_1 cur)
     \<and> \<not> equals (euclid_divisor cur) Bigint2048_ZERO
     \<and> (euclid_iteration i cur = None \<longleftrightarrow> floorDiv (g_0 cur) (euclid_divisor cur) = None)
     \<and> (\<forall>d. floorDiv (g_0 cur) (euclid_divisor cur) = Some d \<longrightarrow>
            euclid_iteration i cur
              = Some (if equals (g_1 cur) Bigint2048_ZERO then cur else \<lparr>g_0 = g_1 cur, g_1 = rem d\<rparr>)
            \<and> (\<not> equals (g_1 cur) Bigint2048_ZERO \<longrightarrow>
                  toBigInt (rem d) = toBigInt (g_0 cur) mod toBigInt (g_1 cur)))
     \<and> (0 \<le> toBigInt (g_0 cur) \<and> toBigInt (g_0 cur) < 2 ^ 2088 - 1 \<and> 0 \<le> toBigInt (g_1 cur) \<longrightarrow>
            (\<exists>cur'. euclid_iteration i cur = Some cur'))"
proof -
  assume r: "inrange (g_0 cur)" "inrange (g_1 cur)"
  note dv = euclid_divisor_props[OF r(2)]
  have z: "equals (g_1 cur) Bigint2048_ZERO \<longleftrightarrow> toBigInt (g_1 cur) = 0"
    unfolding equals_iff[OF r(2) ZERO_props(1)] ZERO_props(2) ..
  have 2: "euclid_divisor cur = (if equals (g_1 cur) Bigint2048_ZERO then Bigint2048_ONE else g_1 cur)"
    by (simp add: euclid_divisor_def Provable_if_def)
  have 4: "euclid_iteration i cur = None \<longleftrightarrow> floorDiv (g_0 cur) (euclid_divisor cur) = None"
    unfolding euclid_iteration_eq[OF r(2)] by (simp split: option.splits)
  have 5: "euclid_iteration i cur
              = Some (if equals (g_1 cur) Bigint2048_ZERO then cur else \<lparr>g_0 = g_1 cur, g_1 = rem d\<rparr>)
            \<and> (\<not> equals (g_1 cur) Bigint2048_ZERO \<longrightarrow>
                  toBigInt (rem d) = toBigInt (g_0 cur) mod toBigInt (g_1 cur))"
    if d: "floorDiv (g_0 cur) (euclid_divisor cur) = Some d" for d
  proof -
    have "toBigInt (rem d) = toBigInt (g_0 cur) mod toBigInt (euclid_divisor cur)"
      by (rule floorDiv_Some_rem(3)[OF r(1) dv(1) d])
    then have "\<not> equals (g_1 cur) Bigint2048_ZERO \<longrightarrow>
                  toBigInt (rem d) = toBigInt (g_0 cur) mod toBigInt (g_1 cur)"
      unfolding dv(2) z by simp
    moreover have "euclid_iteration i cur
              = Some (if equals (g_1 cur) Bigint2048_ZERO then cur else \<lparr>g_0 = g_1 cur, g_1 = rem d\<rparr>)"
      unfolding euclid_iteration_eq[OF r(2)] d z by simp
    ultimately show ?thesis by simp
  qed
  have 6: "\<exists>cur'. euclid_iteration i cur = Some cur'"
    if "0 \<le> toBigInt (g_0 cur) \<and> toBigInt (g_0 cur) < BOUND - 1 \<and> 0 \<le> toBigInt (g_1 cur)"
    using that r by (intro euclid_iteration_nonneg_total) (simp_all add: nonneg_pair_def)
  show ?thesis
    unfolding BOUND_def[symmetric]
    using euclidGcd_unrolled[of cur] 2 dv(3) 4 5 6 by blast
qed


theorem euclidGcd_nine_steps_witness:
  "inrange (g_0 \<lparr>g_0 = Bigint2048_ONE, g_1 = Bigint2048_ZERO\<rparr>)
   \<and> inrange (g_1 \<lparr>g_0 = Bigint2048_ONE, g_1 = Bigint2048_ZERO\<rparr>)
   \<and> euclid_divisor \<lparr>g_0 = Bigint2048_ONE, g_1 = Bigint2048_ZERO\<rparr> = Bigint2048_ONE
   \<and> (\<exists>cur'. euclid_iteration 0 \<lparr>g_0 = Bigint2048_ONE, g_1 = Bigint2048_ZERO\<rparr> = Some cur')"
proof -
  let ?c = "\<lparr>g_0 = Bigint2048_ONE, g_1 = Bigint2048_ZERO\<rparr>"
  have r: "inrange (g_0 ?c)" "inrange (g_1 ?c)" using ONE_props(1) ZERO_props(1) by simp_all
  note t = euclidGcd_nine_steps[OF r, of 0]
  have z: "equals (g_1 ?c) Bigint2048_ZERO"
    unfolding equals_iff[OF r(2) ZERO_props(1)] by simp
  have a: "euclid_divisor ?c = Bigint2048_ONE"
    using t[THEN conjunct2, THEN conjunct1] z by simp
  have "0 \<le> toBigInt (g_0 ?c) \<and> toBigInt (g_0 ?c) < 2 ^ 2088 - 1 \<and> 0 \<le> toBigInt (g_1 ?c)"
    by (simp add: ONE_props ZERO_props)
  then have b: "\<exists>cur'. euclid_iteration 0 ?c = Some cur'"
    using t[THEN conjunct2, THEN conjunct2, THEN conjunct2, THEN conjunct2, THEN conjunct2] by blast
  show ?thesis using r a b by blast
qed

theorem euclid_iteration_MAX_zero_fails:
  "inrange Bigint2048_MAX \<and> inrange Bigint2048_ZERO
   \<and> equals (g_1 \<lparr>g_0 = Bigint2048_MAX, g_1 = Bigint2048_ZERO\<rparr>) Bigint2048_ZERO
   \<and> euclid_iteration 0 \<lparr>g_0 = Bigint2048_MAX, g_1 = Bigint2048_ZERO\<rparr> = None
   \<and> euclidGcd \<lparr>g_0 = Bigint2048_MAX, g_1 = Bigint2048_ZERO\<rparr> = None"
proof -
  let ?c = "\<lparr>g_0 = Bigint2048_MAX, g_1 = Bigint2048_ZERO\<rparr>"
  have r: "inrange (g_1 ?c)" using ZERO_props(1) by simp
  have d: "euclid_divisor ?c = Bigint2048_ONE"
    unfolding euclid_divisor_eq[OF r] by (simp add: ZERO_props)
  have f: "floorDiv Bigint2048_MAX Bigint2048_ONE = None"
    unfolding floorDiv_eq[OF MAX_props(1) ONE_props(1)] MAX_props(2) ONE_props(2) by simp
  have i: "euclid_iteration i ?c = None" for i
    unfolding euclid_iteration_eq[OF r] d by (simp add: f)
  have z: "equals (g_1 ?c) Bigint2048_ZERO"
    unfolding equals_iff[OF r ZERO_props(1)] by simp
  have g: "euclidGcd ?c = None"
    unfolding euclidGcd_unrolled i by simp
  show ?thesis using MAX_props(1) ZERO_props(1) z i g by blast
qed


text \<open>
  C7: on a pair of non-negative values with limbs in range, every pair that
  \<open>euclidGcd\<close> returns, and every pair that a single iteration returns, is again such a
  pair and has the same greatest common divisor; \<open>euclidGcd\<close> does return when both
  values are below \<open>2^2088 - 1\<close>.
\<close>

theorem euclidGcd_preserves_gcd:
  "inrange (g_0 p) \<Longrightarrow> inrange (g_1 p) \<Longrightarrow> 0 \<le> toBigInt (g_0 p) \<Longrightarrow> 0 \<le> toBigInt (g_1 p) \<Longrightarrow>
     (\<forall>p'. euclidGcd p = Some p' \<longrightarrow>
         inrange (g_0 p') \<and> inrange (g_1 p') \<and> 0 \<le> toBigInt (g_0 p') \<and> 0 \<le> toBigInt (g_1 p')
         \<and> gcd (toBigInt (g_0 p')) (toBigInt (g_1 p')) = gcd (toBigInt (g_0 p)) (toBigInt (g_1 p)))
     \<and> (\<forall>i p'. euclid_iteration i p = Some p' \<longrightarrow>
         inrange (g_0 p') \<and> inrange (g_1 p') \<and> 0 \<le> toBigInt (g_0 p') \<and> 0 \<le> toBigInt (g_1 p')
         \<and> gcd (toBigInt (g_0 p')) (toBigInt (g_1 p')) = gcd (toBigInt (g_0 p)) (toBigInt (g_1 p)))
     \<and> (toBigInt (g_0 p) < 2 ^ 2088 - 1 \<and> toBigInt (g_1 p) < 2 ^ 2088 - 1 \<longrightarrow>
           (\<exists>p'. euclidGcd p = Some p'))"
proof -
  assume "inrange (g_0 p)" "inrange (g_1 p)" "0 \<le> toBigInt (g_0 p)" "0 \<le> toBigInt (g_1 p)"
  then have n: "nonneg_pair p" by (simp add: nonneg_pair_def)
  have v: "0 \<le> fst (pair_val p)" "0 \<le> snd (pair_val p)"
    using n by (simp_all add: nonneg_pair_def pair_val_def)
  have 1: "inrange (g_0 p') \<and> inrange (g_1 p') \<and> 0 \<le> toBigInt (g_0 p') \<and> 0 \<le> toBigInt (g_1 p')
         \<and> gcd (toBigInt (g_0 p')) (toBigInt (g_1 p')) = gcd (toBigInt (g_0 p)) (toBigInt (g_1 p))"
    if "euclidGcd p = Some p'" for p'
    using euclidGcd_nonneg_Some(1,2)[OF n that] by (simp add: nonneg_pair_def pair_val_def)
  have 2: "inrange (g_0 p') \<and> inrange (g_1 p') \<and> 0 \<le> toBigInt (g_0 p') \<and> 0 \<le> toBigInt (g_1 p')
         \<and> gcd (toBigInt (g_0 p')) (toBigInt (g_1 p')) = gcd (toBigInt (g_0 p)) (toBigInt (g_1 p))"
    if "euclid_iteration i p = Some p'" for i p'
  proof -
    note e = euclid_iteration_nonneg_Some[OF n that]
    have "gcd (fst (pair_val p')) (snd (pair_val p')) = gcd (fst (pair_val p)) (snd (pair_val p))"
      using e euclid_step_props(3)[OF v] by simp
    then show ?thesis using e by (simp add: nonneg_pair_def pair_val_def)
  qed
  have 3: "\<exists>p'. euclidGcd p = Some p'"
    if "toBigInt (g_0 p) < BOUND - 1 \<and> toBigInt (g_1 p) < BOUND - 1"
    using euclidGcd_nonneg_total[OF n] that by (auto simp add: pair_val_def)
  show ?thesis
    unfolding BOUND_def[symmetric] using 1 2 3 by blast
qed

theorem euclidGcd_preserves_gcd_witness:
  "inrange (g_0 \<lparr>g_0 = Bigint2048_ONE, g_1 = Bigint2048_ONE\<rparr>)
   \<and> inrange (g_1 \<lparr>g_0 = Bigint2048_ONE, g_1 = Bigint2048_ONE\<rparr>)
   \<and> 0 \<le> toBigInt (g_0 \<lparr>g_0 = Bigint2048_ONE, g_1 = Bigint2048_ONE\<rparr>)
   \<and> 0 \<le> toBigInt (g_1 \<lparr>g_0 = Bigint2048_ONE, g_1 = Bigint2048_ONE\<rparr>)
   \<and> (\<exists>p'. euclidGcd \<lparr>g_0 = Bigint2048_ONE, g_1 = Bigint2048_ONE\<rparr> = Some p'
         \<and> gcd (toBigInt (g_0 p')) (toBigInt (g_1 p')) = 1)"
proof -
  let ?p = "\<lparr>g_0 = Bigint2048_ONE, g_1 = Bigint2048_ONE\<rparr>"
  have h: "inrange (g_0 ?p)" "inrange (g_1 ?p)" "0 \<le> toBigInt (g_0 ?p)" "0 \<le> toBigInt (g_1 ?p)"
    by (simp_all add: ONE_props)
  note t = euclidGcd_preserves_gcd[OF h]
  have "toBigInt (g_0 ?p) < 2 ^ 2088 - 1 \<and> toBigInt (g_1 ?p) < 2 ^ 2088 - 1"
    by (simp add: ONE_props)
  then obtain p' where p': "euclidGcd ?p = Some p'"
    using t[THEN conjunct2, THEN conjunct2] by blast
  have "gcd (toBigInt (g_0 p')) (toBigInt (g_1 p')) = gcd (toBigInt (g_0 ?p)) (toBigInt (g_1 ?p))"
    using t[THEN conjunct1, rule_format, OF p'] by simp
  then have "gcd (toBigInt (g_0 p')) (toBigInt (g_1 p')) = 1"
    by (simp add: ONE_props)
  then have "\<exists>p'. euclidGcd ?p = Some p' \<and> gcd (toBigInt (g_0 p')) (toBigInt (g_1 p')) = 1"
    using p' by (intro exI[of _ p']) simp
  then show ?thesis using h by (intro conjI)
qed


section \<open>The recursive proof chain\<close>

lemma forM_euclid_snd_le:
  assumes "nonneg_pair p" "forM is euclid_iteration p = Some p'"
  shows "snd (pair_val p') \<le> snd (pair_val p)"
proof -
  define I where "I = (\<lambda>s. nonneg_pair s \<and> snd (pair_val s) \<le> snd (pair_val p))"
  have "I p'"
  proof (rule forM_invariant[where body = euclid_iteration and I = I])
    show "I s'" if "I s" "euclid_iteration i s = Some s'" for i s s'
    proof -
      have n: "nonneg_pair s" using that(1) by (simp add: I_def)
      have v: "0 \<le> fst (pair_val s)" "0 \<le> snd (pair_val s)"
        using n by (simp_all add: nonneg_pair_def pair_val_def)
      note e = euclid_iteration_nonneg_Some[OF n that(2)]
      show ?thesis
        using that(1) e euclid_step_props(4)[OF v] by (simp add: I_def)
    qed
    show "I p" using assms(1) by (simp add: I_def)
    show "forM is euclid_iteration p = Some p'" by (rule assms(2))
  qed
  then show ?thesis by (simp add: I_def)
qed

lemma euclidGcd_decreases:
  assumes "nonneg_pair p" "snd (pair_val p) \<noteq> 0" "euclidGcd p = Some p'"
  shows "snd (pair_val p') < snd (pair_val p)"
proof -
  have u: "[0..<GCD_ITERATIONS_PER_PROOF] = 0 # [1..<GCD_ITERATIONS_PER_PROOF]"
    by (simp add: GCD_ITERATIONS_PER_PROOF_def upt_rec)
  obtain c where c: "euclid_iteration 0 p = Some c"
    and r: "forM [1..<GCD_ITERATIONS_PER_PROOF] euclid_iteration c = Some p'"
    using assms(3) unfolding euclidGcd_def u by (auto split: option.splits)
  have v: "0 \<le> fst (pair_val p)" "0 \<le> snd (pair_val p)"
    using assms(1) by (simp_all add: nonneg_pair_def pair_val_def)
  note e = euclid_iteration_nonneg_Some[OF assms(1) c]
  have "snd (pair_val c) < snd (pair_val p)"
    using e euclid_step_props(5)[OF v assms(2)] by simp
  moreover have "snd (pair_val p') \<le> snd (pair_val c)"
    using forM_euclid_snd_le[OF _ r] e by simp
  ultimately show ?thesis by linarith
qed

lemma isSolved_iff:
  assumes "nonneg_pair p"
  shows "isSolved p \<longleftrightarrow> fst (pair_val p) = snd (pair_val p) \<or> snd (pair_val p) = 0"
proof -
  have r: "inrange (g_0 p)" "inrange (g_1 p)" using assms by (simp_all add: nonneg_pair_def)
  show ?thesis
    unfolding isSolved_def Let_def equals_iff[OF r] equals_iff[OF r(2) ZERO_props(1)] ZERO_props(2)
    by (simp add: pair_val_def)
qed

lemma isSolved_gcd:
  assumes "nonneg_pair p" "isSolved p"
  shows "toBigInt (g_0 p) = gcd (fst (pair_val p)) (snd (pair_val p))"
proof -
  have n: "0 \<le> toBigInt (g_0 p)" using assms(1) by (simp add: nonneg_pair_def)
  have "fst (pair_val p) = snd (pair_val p) \<or> snd (pair_val p) = 0"
    using assms isSolved_iff by simp
  then show ?thesis using n by (auto simp add: pair_val_def)
qed

text \<open>
  What holds of every attestation the driver handles for the input \<open>pair\<close>: it declares
  that input, and its output is a non-negative pair below \<open>2^2088 - 1\<close> with the
  greatest common divisor \<open>g\<close>.
\<close>

lemma drive_terminates:
  assumes "inrange (g_0 pair)" "inrange (g_1 pair)"
    "publicInput pf = pair" "nonneg_pair (publicOutput pf)"
    "fst (pair_val (publicOutput pf)) < BOUND - 1" "snd (pair_val (publicOutput pf)) < BOUND - 1"
    "gcd (fst (pair_val (publicOutput pf))) (snd (pair_val (publicOutput pf))) = g"
  shows "\<exists>pf'. drive pair pf = Some (Some pf') \<and> publicInput pf' = pair
            \<and> isSolved (publicOutput pf') \<and> toBigInt (g_0 (publicOutput pf')) = g"
  using assms(3-7)
proof (induction "nat (snd (pair_val (publicOutput pf)))" arbitrary: pf rule: less_induct)
  case less
  let ?out = "publicOutput pf"
  show ?case
  proof (cases "isSolved ?out")
    case True
    have "drive pair pf = Some (Some pf)"
      by (subst drive.simps) (simp add: True)
    moreover have "toBigInt (g_0 ?out) = g"
      using isSolved_gcd[OF less.prems(2) True] less.prems(5) by simp
    ultimately show ?thesis using True less.prems(1) by blast
  next
    case False
    then have nz: "snd (pair_val ?out) \<noteq> 0"
      using isSolved_iff[OF less.prems(2)] by simp
    obtain out' where o: "euclidGcd ?out = Some out'"
      and b: "fst (pair_val out') < BOUND - 1" "snd (pair_val out') < BOUND - 1"
      using euclidGcd_nonneg_total[OF less.prems(2,3,4)] by blast
    note k = euclidGcd_nonneg_Some(1,2)[OF less.prems(2) o]
    have dec: "snd (pair_val out') < snd (pair_val ?out)"
      by (rule euclidGcd_decreases[OF less.prems(2) nz o])
    have nn: "0 \<le> snd (pair_val out')"
      using k(1) by (simp add: nonneg_pair_def pair_val_def)
    define pf' where "pf' = \<lparr>publicInput = pair, publicOutput = out'\<rparr>"
    have eq: "equals (g_0 pair) (g_0 pair)" "equals (g_1 pair) (g_1 pair)"
      using equals_iff[OF assms(1) assms(1)] equals_iff[OF assms(2) assms(2)] by simp_all
    have st: "step pair pf = Some pf'"
      unfolding step_def less.prems(1) pf'_def
      by (simp add: assertEquals_def assertTrue_def eq o)
    have "\<exists>p. drive pair pf' = Some (Some p) \<and> publicInput p = pair
            \<and> isSolved (publicOutput p) \<and> toBigInt (g_0 (publicOutput p)) = g"
    proof (rule less.hyps)
      show "nat (snd (pair_val (publicOutput pf'))) < nat (snd (pair_val ?out))"
        using dec nn by (simp add: pf'_def)
      show "publicInput pf' = pair" by (simp add: pf'_def)
      show "nonneg_pair (publicOutput pf')" using k(1) by (simp add: pf'_def)
      show "fst (pair_val (publicOutput pf')) < BOUND - 1"
        "snd (pair_val (publicOutput pf')) < BOUND - 1"
        using b by (simp_all add: pf'_def)
      show "gcd (fst (pair_val (publicOutput pf'))) (snd (pair_val (publicOutput pf'))) = g"
        using k(2) less.prems(5) by (simp add: pf'_def)
    qed
    moreover have "drive pair pf = drive pair pf'"
      by (subst drive.simps) (simp add: False st)
    ultimately show ?thesis by simp
  qed
qed


lemma run_computes_gcd:
  assumes "nonneg_pair pair" "fst (pair_val pair) < BOUND - 1" "snd (pair_val pair) < BOUND - 1"
  shows "\<exists>pf. run pair = Some (Some pf) \<and> publicInput pf = pair
            \<and> isSolved (publicOutput pf)
            \<and> toBigInt (g_0 (publicOutput pf)) = gcd (fst (pair_val pair)) (snd (pair_val pair))"
proof -
  have r: "inrange (g_0 pair)" "inrange (g_1 pair)"
    using assms(1) by (simp_all add: nonneg_pair_def)
  obtain out where o: "euclidGcd pair = Some out"
    and b: "fst (pair_val out) < BOUND - 1" "snd (pair_val out) < BOUND - 1"
    using euclidGcd_nonneg_total[OF assms] by blast
  note k = euclidGcd_nonneg_Some(1,2)[OF assms(1) o]
  define pf where "pf = \<lparr>publicInput = pair, publicOutput = out\<rparr>"
  have bc: "baseCase pair = Some pf" by (simp add: baseCase_def o pf_def)
  have "\<exists>pf'. drive pair pf = Some (Some pf') \<and> publicInput pf' = pair
            \<and> isSolved (publicOutput pf')
            \<and> toBigInt (g_0 (publicOutput pf')) = gcd (fst (pair_val pair)) (snd (pair_val pair))"
  proof (rule drive_terminates[OF r])
    show "publicInput pf = pair" by (simp add: pf_def)
    show "nonneg_pair (publicOutput pf)" using k(1) by (simp add: pf_def)
    show "fst (pair_val (publicOutput pf)) < BOUND - 1" "snd (pair_val (publicOutput pf)) < BOUND - 1"
      using b by (simp_all add: pf_def)
    show "gcd (fst (pair_val (publicOutput pf))) (snd (pair_val (publicOutput pf)))
        = gcd (fst (pair_val pair)) (snd (pair_val pair))"
      using k(2) by (simp add: pf_def)
  qed
  then show ?thesis by (simp add: run_def bc)
qed

text \<open>
  C1, as the code has it: for integers \<open>a\<close> and \<open>b\<close> with \<open>0 \<le> a, b < 2^2088 - 1\<close>, the
  driver, which calls the base case once and then the step case while the published
  output is not solved, stops after finitely many calls without a failed assertion;
  the attestation it ends with still declares the input \<open>(a, b)\<close>, its output is solved,
  and the \<open>g_0\<close> of that output is the greatest common divisor of \<open>a\<close> and \<open>b\<close>.
\<close>

theorem chain_computes_gcd:
  "0 \<le> a \<Longrightarrow> a < 2 ^ 2088 - 1 \<Longrightarrow> 0 \<le> b \<Longrightarrow> b < 2 ^ 2088 - 1 \<Longrightarrow>
     \<exists>A B pf. Bigint2048_from a = Some A \<and> Bigint2048_from b = Some B
        \<and> run \<lparr>g_0 = A, g_1 = B\<rparr> = Some (Some pf)
        \<and> publicInput pf = \<lparr>g_0 = A, g_1 = B\<rparr>
        \<and> isSolved (publicOutput pf)
        \<and> assertSolved (publicOutput pf) = Some (g_0 (publicOutput pf))
        \<and> toBigInt (g_0 (publicOutput pf)) = gcd a b"
proof -
  assume a: "0 \<le> a" "a < 2 ^ 2088 - 1" and b: "0 \<le> b" "b < 2 ^ 2088 - 1"
  have ab: "\<bar>a\<bar> < BOUND" "\<bar>b\<bar> < BOUND" "a < BOUND - 1" "b < BOUND - 1"
    using a b by (simp_all add: BOUND_def)
  define A where "A = \<lparr>negative = a < 0, fields' = to_limbs LIMB_NUM \<bar>a\<bar>\<rparr>"
  define B where "B = \<lparr>negative = b < 0, fields' = to_limbs LIMB_NUM \<bar>b\<bar>\<rparr>"
  have f: "Bigint2048_from a = Some A" "Bigint2048_from b = Some B"
    unfolding A_def B_def by (rule Bigint2048_from_Some[OF ab(1)], rule Bigint2048_from_Some[OF ab(2)])
  have v: "toBigInt A = a" "toBigInt B = b"
    unfolding A_def B_def by (rule toBigInt_from[OF ab(1)], rule toBigInt_from[OF ab(2)])
  have r: "inrange A" "inrange B" unfolding A_def B_def by (rule inrange_from)+
  define pair where "pair = \<lparr>g_0 = A, g_1 = B\<rparr>"
  have n: "nonneg_pair pair" using r v a(1) b(1) by (simp add: nonneg_pair_def pair_def)
  have pv: "pair_val pair = (a, b)" by (simp add: pair_val_def pair_def v)
  obtain pf where pf: "run pair = Some (Some pf)" "publicInput pf = pair"
    "isSolved (publicOutput pf)" "toBigInt (g_0 (publicOutput pf)) = gcd a b"
    using run_computes_gcd[OF n] ab(3,4) unfolding pv by auto
  have "assertSolved (publicOutput pf) = Some (g_0 (publicOutput pf))"
    by (simp add: assertSolved_def assertTrue_def pf(3))
  then show ?thesis
    using f pf unfolding pair_def by blast
qed

theorem chain_computes_gcd_witness:
  "(0::int) \<le> 48 \<and> (48::int) < 2 ^ 2088 - 1 \<and> (0::int) \<le> 18 \<and> (18::int) < 2 ^ 2088 - 1
   \<and> (\<exists>A B pf. Bigint2048_from 48 = Some A \<and> Bigint2048_from 18 = Some B
        \<and> run \<lparr>g_0 = A, g_1 = B\<rparr> = Some (Some pf)
        \<and> isSolved (publicOutput pf)
        \<and> toBigInt (g_0 (publicOutput pf)) = gcd 48 18)"
proof -
  have h: "(0::int) \<le> 48" "(48::int) < 2 ^ 2088 - 1" "(0::int) \<le> 18" "(18::int) < 2 ^ 2088 - 1"
    by simp_all
  show ?thesis
    using chain_computes_gcd[OF h] h by blast
qed

theorem chain_fails_at_MAX:
  "(0::int) \<le> 2 ^ 2088 - 1 \<and> (2 ^ 2088 - 1 :: int) < 2 ^ 2088 \<and> (0::int) \<le> 1 \<and> (1::int) < 2 ^ 2088
   \<and> Bigint2048_from (2 ^ 2088 - 1) = Some Bigint2048_MAX
   \<and> Bigint2048_from 1 = Some Bigint2048_ONE
   \<and> run \<lparr>g_0 = Bigint2048_MAX, g_1 = Bigint2048_ONE\<rparr> = Some None"
proof -
  let ?c = "\<lparr>g_0 = Bigint2048_MAX, g_1 = Bigint2048_ONE\<rparr>"
  have r: "inrange (g_1 ?c)" using ONE_props(1) by simp
  have d: "euclid_divisor ?c = Bigint2048_ONE"
    unfolding euclid_divisor_eq[OF r] by simp
  have f: "floorDiv Bigint2048_MAX Bigint2048_ONE = None"
    unfolding floorDiv_eq[OF MAX_props(1) ONE_props(1)] MAX_props(2) ONE_props(2) by simp
  have i: "euclid_iteration i ?c = None" for i
    unfolding euclid_iteration_eq[OF r] d by (simp add: f)
  have g: "euclidGcd ?c = None"
    unfolding euclidGcd_unrolled i by simp
  have run: "run ?c = Some None"
    by (simp add: run_def baseCase_def g)
  have e: "push_bit (LIMB_BITS * LIMB_NUM) 1 - 1 = BOUND - 1"
    by (simp add: BOUND_def LIMB_BITS_def LIMB_NUM_def)
  have bm: "\<bar>BOUND - 1\<bar> < BOUND" and b1: "\<bar>1\<bar> < BOUND" by (simp_all add: BOUND_def)
  have m: "Bigint2048_from (BOUND - 1) = Some Bigint2048_MAX"
    unfolding Bigint2048_MAX_def e Bigint2048_from_Some[OF bm] by simp
  have o: "Bigint2048_from 1 = Some Bigint2048_ONE"
    unfolding Bigint2048_ONE_def Bigint2048_from_Some[OF b1] by simp
  have "(0::int) \<le> BOUND - 1 \<and> BOUND - 1 < BOUND \<and> (0::int) \<le> 1 \<and> 1 < BOUND"
    by (simp add: BOUND_def)
  then show ?thesis
    unfolding BOUND_def[symmetric] using m o run by blast
qed

end
